theory Spec2Isabelle
  imports Main "HOL-Library.List_Lexorder"
begin

section \<open>The store: list objects, heap nodes, the allocator\<close>

text \<open>
  A \<^verbatim>\<open>Node*\<close> that is not null points either at the sentinel \<^verbatim>\<open>head_\<close> embedded in
  some list object or at a node obtained from \<^verbatim>\<open>new\<close>. List objects are identified by
  the slot of automatic storage they occupy, heap nodes by their address.
  \<^verbatim>\<open>nullptr\<close> is \<open>None\<close>.
\<close>

type_synonym addr = nat
type_synonym lid = nat

datatype ptr = Sentinel lid | Cell addr

text \<open>\<^verbatim>\<open>struct Node { Type value; Node* next_node = nullptr; }\<close>\<close>

record 'a Node =
  node_value :: 'a
  next_node :: "ptr option"

text \<open>
  \<^verbatim>\<open>Node head_; size_t size_ = 0;\<close> Only the link of the sentinel is kept: its
  \<^verbatim>\<open>value\<close> member is default-initialised and no member function reads it.
  \<^verbatim>\<open>size_t\<close> is a natural number below \<open>2 ^ 64\<close>, with the wrap-around of its
  increment and decrement written out.
  A name cannot end in an underscore here: the members \<^verbatim>\<open>size_\<close> and \<^verbatim>\<open>node_\<close>
  are \<open>m_size\<close> and \<open>m_node\<close>, \<^verbatim>\<open>begin\<close> and \<^verbatim>\<open>end\<close> are \<open>begin_it\<close> and
  \<open>end_it\<close>, and the member \<^verbatim>\<open>value\<close> is \<open>node_value\<close>.
\<close>

record SingleLinkedList =
  head_next_node :: "ptr option"
  m_size :: nat

definition SIZE_MAX :: nat where
  "SIZE_MAX = 2 ^ 64 - 1"

text \<open>
  \<^verbatim>\<open>++size_\<close> and \<^verbatim>\<open>--size_\<close> on a \<^verbatim>\<open>size_t\<close>: both wrap around. The address of an
  object is a non-null value of a 64-bit pointer.
\<close>

definition valid_addr :: "addr \<Rightarrow> bool" where
  "valid_addr a \<longleftrightarrow> 0 < a \<and> a \<le> SIZE_MAX"

definition incr :: "nat \<Rightarrow> nat" where
  "incr k = (if k = SIZE_MAX then 0 else k + 1)"

definition decr :: "nat \<Rightarrow> nat" where
  "decr k = (if k = 0 then SIZE_MAX else k - 1)"

text \<open>
  The program state. \<open>allocs\<close> lists the outcomes of the coming calls of
  \<^verbatim>\<open>operator new\<close>: \<open>Some a\<close> is the address handed out, \<open>None\<close> is
  \<^verbatim>\<open>std::bad_alloc\<close>; an exhausted list is an exhausted memory. \<open>next_obj\<close> is the
  first slot of automatic storage that was never used.
\<close>

record 'a state =
  objs :: "lid \<Rightarrow> SingleLinkedList option"
  heap :: "addr \<Rightarrow> 'a Node option"
  next_obj :: lid
  allocs :: "addr option list"

text \<open>
  How a call ends: it returns (\<open>Done\<close>), it leaves by \<^verbatim>\<open>std::bad_alloc\<close> (\<open>Throw\<close>,
  with the state the caller sees), or the program stops at a failed \<^verbatim>\<open>assert\<close> or
  at an access through a pointer to no live object (\<open>Abort\<close>).
\<close>

datatype fault = AssertionFailed | InvalidPointer

datatype ('r, 's) outcome = Done 'r 's | Throw 's | Abort fault

fun map_result :: "('r \<Rightarrow> 'q) \<Rightarrow> ('r, 's) outcome \<Rightarrow> ('q, 's) outcome" where
  "map_result f (Done r s) = Done (f r) s"
| "map_result f (Throw s) = Throw s"
| "map_result f (Abort e) = Abort e"

text \<open>Reading and writing \<^verbatim>\<open>p->next_node\<close>; \<open>None\<close> when \<open>p\<close> points to no live object.\<close>

definition get_next :: "'a state \<Rightarrow> ptr \<Rightarrow> ptr option option" where
  "get_next s p =
     (case p of
        Sentinel l \<Rightarrow> map_option head_next_node (objs s l)
      | Cell a \<Rightarrow> map_option next_node (heap s a))"

definition set_next :: "ptr \<Rightarrow> ptr option \<Rightarrow> 'a state \<Rightarrow> 'a state option" where
  "set_next p q s =
     (case p of
        Sentinel l \<Rightarrow>
          (case objs s l of
             None \<Rightarrow> None
           | Some L \<Rightarrow> Some (s\<lparr>objs := (objs s)(l \<mapsto> L\<lparr>head_next_node := q\<rparr>)\<rparr>))
      | Cell a \<Rightarrow>
          (case heap s a of
             None \<Rightarrow> None
           | Some n \<Rightarrow> Some (s\<lparr>heap := (heap s)(a \<mapsto> n\<lparr>next_node := q\<rparr>)\<rparr>)))"

text \<open>\<^verbatim>\<open>new Node(val, next)\<close>\<close>

definition new_Node :: "'a \<Rightarrow> ptr option \<Rightarrow> 'a state \<Rightarrow> (addr, 'a state) outcome" where
  "new_Node val nxt s =
     (case allocs s of
        [] \<Rightarrow> Throw s
      | None # rest \<Rightarrow> Throw (s\<lparr>allocs := rest\<rparr>)
      | Some a # rest \<Rightarrow>
          Done a (s\<lparr>heap := (heap s)(a \<mapsto> \<lparr>node_value = val, next_node = nxt\<rparr>),
                    allocs := rest\<rparr>))"

text \<open>\<^verbatim>\<open>delete p\<close> for a non-null \<open>p\<close>: only a live heap node can be deleted.\<close>

definition delete_Node :: "ptr \<Rightarrow> 'a state \<Rightarrow> 'a state option" where
  "delete_Node p s =
     (case p of
        Sentinel l \<Rightarrow> None
      | Cell a \<Rightarrow>
          (case heap s a of
             None \<Rightarrow> None
           | Some n \<Rightarrow> Some (s\<lparr>heap := (heap s)(a := None)\<rparr>)))"

text \<open>
  Storage for a list object with its default member initialisers applied
  (\<^verbatim>\<open>head_.next_node = nullptr\<close>, \<^verbatim>\<open>size_ = 0\<close>), and its release.
\<close>

definition new_object :: "'a state \<Rightarrow> lid \<times> 'a state" where
  "new_object s =
     (next_obj s,
      s\<lparr>objs := (objs s)(next_obj s \<mapsto> \<lparr>head_next_node = None, m_size = 0\<rparr>),
        next_obj := Suc (next_obj s)\<rparr>)"

definition release_object :: "lid \<Rightarrow> 'a state \<Rightarrow> 'a state" where
  "release_object l s = s\<lparr>objs := (objs s)(l := None)\<rparr>"

section \<open>BasicIterator\<close>

text \<open>
  Both variants (\<^verbatim>\<open>Iterator\<close>, \<^verbatim>\<open>ConstIterator\<close>) hold one \<^verbatim>\<open>Node* node_\<close> and differ
  only in the constness of the reference they yield, so one type stands for both and
  the converting constructor is the identity.
\<close>

record BasicIterator =
  m_node :: "ptr option"

text \<open>\<^verbatim>\<open>BasicIterator() = default\<close> with \<^verbatim>\<open>Node* node_ = nullptr\<close>\<close>

definition BasicIterator_default :: BasicIterator where
  "BasicIterator_default = \<lparr>m_node = None\<rparr>"

definition it_eq :: "BasicIterator \<Rightarrow> BasicIterator \<Rightarrow> bool" where
  "it_eq lhs rhs = (m_node lhs = m_node rhs)"

definition it_neq :: "BasicIterator \<Rightarrow> BasicIterator \<Rightarrow> bool" where
  "it_neq lhs rhs = (m_node lhs \<noteq> m_node rhs)"

text \<open>\<^verbatim>\<open>operator++\<close>: \<^verbatim>\<open>assert(node_ != nullptr); node_ = node_->next_node;\<close>\<close>

definition it_incr :: "BasicIterator \<Rightarrow> 'a state \<Rightarrow> fault + BasicIterator" where
  "it_incr it s =
     (case m_node it of
        None \<Rightarrow> Inl AssertionFailed
      | Some p \<Rightarrow>
          (case get_next s p of
             None \<Rightarrow> Inl InvalidPointer
           | Some q \<Rightarrow> Inr \<lparr>m_node = q\<rparr>))"

text \<open>
  \<^verbatim>\<open>operator*\<close>: \<^verbatim>\<open>assert(node_ != nullptr); return node_->value;\<close>
  The value of a sentinel is not part of the model: reading it is a fault.
\<close>

definition it_deref :: "BasicIterator \<Rightarrow> 'a state \<Rightarrow> fault + 'a" where
  "it_deref it s =
     (case m_node it of
        None \<Rightarrow> Inl AssertionFailed
      | Some (Sentinel l) \<Rightarrow> Inl InvalidPointer
      | Some (Cell a) \<Rightarrow>
          (case heap s a of
             None \<Rightarrow> Inl InvalidPointer
           | Some n \<Rightarrow> Inr (node_value n)))"

text \<open>
  An assignment through the reference that \<^verbatim>\<open>operator*\<close> of a mutable iterator returns,
  \<^verbatim>\<open>*it = val;\<close>
\<close>

definition it_assign :: "BasicIterator \<Rightarrow> 'a \<Rightarrow> 'a state \<Rightarrow> (unit, 'a state) outcome" where
  "it_assign it val s =
     (case m_node it of
        None \<Rightarrow> Abort AssertionFailed
      | Some (Sentinel l) \<Rightarrow> Abort InvalidPointer
      | Some (Cell a) \<Rightarrow>
          (case heap s a of
             None \<Rightarrow> Abort InvalidPointer
           | Some n \<Rightarrow> Done () (s\<lparr>heap := (heap s)(a \<mapsto> n\<lparr>node_value := val\<rparr>)\<rparr>)))"

section \<open>SingleLinkedList: the member functions\<close>

definition before_begin :: "lid \<Rightarrow> BasicIterator" where
  "before_begin this = \<lparr>m_node = Some (Sentinel this)\<rparr>"

definition cbefore_begin :: "lid \<Rightarrow> BasicIterator" where
  "cbefore_begin this = \<lparr>m_node = Some (Sentinel this)\<rparr>"

text \<open>\<^verbatim>\<open>begin()\<close> and \<^verbatim>\<open>cbegin()\<close> read \<^verbatim>\<open>head_.next_node\<close> of a live list.\<close>

definition cbegin :: "lid \<Rightarrow> 'a state \<Rightarrow> fault + BasicIterator" where
  "cbegin this s =
     (case objs s this of
        None \<Rightarrow> Inl InvalidPointer
      | Some L \<Rightarrow> Inr \<lparr>m_node = head_next_node L\<rparr>)"

definition begin_it :: "lid \<Rightarrow> 'a state \<Rightarrow> fault + BasicIterator" where
  "begin_it this s = cbegin this s"

definition cend :: "lid \<Rightarrow> BasicIterator" where
  "cend this = \<lparr>m_node = None\<rparr>"

definition end_it :: "lid \<Rightarrow> BasicIterator" where
  "end_it this = \<lparr>m_node = None\<rparr>"

definition GetSize :: "lid \<Rightarrow> 'a state \<Rightarrow> fault + nat" where
  "GetSize this s =
     (case objs s this of None \<Rightarrow> Inl InvalidPointer | Some L \<Rightarrow> Inr (m_size L))"

definition IsEmpty :: "lid \<Rightarrow> 'a state \<Rightarrow> fault + bool" where
  "IsEmpty this s =
     (case objs s this of
        None \<Rightarrow> Inl InvalidPointer
      | Some L \<Rightarrow> Inr (if m_size L = 0 then True else False))"

text \<open>\<^verbatim>\<open>head_.next_node = new Node(value, head_.next_node); ++size_;\<close>\<close>

definition PushFront :: "lid \<Rightarrow> 'a \<Rightarrow> 'a state \<Rightarrow> (unit, 'a state) outcome" where
  "PushFront this val s =
     (case objs s this of
        None \<Rightarrow> Abort InvalidPointer
      | Some L \<Rightarrow>
          (case new_Node val (head_next_node L) s of
             Abort e \<Rightarrow> Abort e
           | Throw s' \<Rightarrow> Throw s'
           | Done a s1 \<Rightarrow>
               Done () (s1\<lparr>objs := (objs s1)(this \<mapsto>
                 L\<lparr>head_next_node := Some (Cell a), m_size := incr (m_size L)\<rparr>)\<rparr>)))"

text \<open>
  \<^verbatim>\<open>assert(!IsEmpty()); auto* temp = (head_.next_node)->next_node;
  delete head_.next_node; head_.next_node = temp; --size_;\<close>
\<close>

definition PopFront :: "lid \<Rightarrow> 'a state \<Rightarrow> (unit, 'a state) outcome" where
  "PopFront this s =
     (case objs s this of
        None \<Rightarrow> Abort InvalidPointer
      | Some L \<Rightarrow>
          if m_size L = 0 then Abort AssertionFailed
          else
            (case head_next_node L of
               None \<Rightarrow> Abort InvalidPointer
             | Some p \<Rightarrow>
                 (case get_next s p of
                    None \<Rightarrow> Abort InvalidPointer
                  | Some temp \<Rightarrow>
                      (case delete_Node p s of
                         None \<Rightarrow> Abort InvalidPointer
                       | Some s1 \<Rightarrow>
                           (case objs s1 this of
                              None \<Rightarrow> Abort InvalidPointer
                            | Some L1 \<Rightarrow>
                                Done () (s1\<lparr>objs := (objs s1)(this \<mapsto>
                                  L1\<lparr>head_next_node := temp, m_size := m_size L1 - 1\<rparr>)\<rparr>))))))"

text \<open>\<^verbatim>\<open>++size_\<close> and \<^verbatim>\<open>--size_\<close> on the list \<open>this\<close>.\<close>

definition incr_size :: "lid \<Rightarrow> 'a state \<Rightarrow> 'a state option" where
  "incr_size this s =
     (case objs s this of
        None \<Rightarrow> None
      | Some L \<Rightarrow> Some (s\<lparr>objs := (objs s)(this \<mapsto> L\<lparr>m_size := incr (m_size L)\<rparr>)\<rparr>))"

definition decr_size :: "lid \<Rightarrow> 'a state \<Rightarrow> 'a state option" where
  "decr_size this s =
     (case objs s this of
        None \<Rightarrow> None
      | Some L \<Rightarrow> Some (s\<lparr>objs := (objs s)(this \<mapsto> L\<lparr>m_size := decr (m_size L)\<rparr>)\<rparr>))"

text \<open>
  \<^verbatim>\<open>assert(pos.node_ != nullptr);
  pos.node_->next_node = new Node(value, pos.node_->next_node);
  ++size_; return Iterator{ pos.node_->next_node };\<close>
\<close>

definition InsertAfter ::
  "lid \<Rightarrow> BasicIterator \<Rightarrow> 'a \<Rightarrow> 'a state \<Rightarrow> (BasicIterator, 'a state) outcome" where
  "InsertAfter this pos val s =
     (case m_node pos of
        None \<Rightarrow> Abort AssertionFailed
      | Some p \<Rightarrow>
          (case get_next s p of
             None \<Rightarrow> Abort InvalidPointer
           | Some nxt \<Rightarrow>
               (case new_Node val nxt s of
                  Abort e \<Rightarrow> Abort e
                | Throw s' \<Rightarrow> Throw s'
                | Done a s1 \<Rightarrow>
                    (case set_next p (Some (Cell a)) s1 of
                       None \<Rightarrow> Abort InvalidPointer
                     | Some s2 \<Rightarrow>
                         (case incr_size this s2 of
                            None \<Rightarrow> Abort InvalidPointer
                          | Some s3 \<Rightarrow>
                              (case get_next s3 p of
                                 None \<Rightarrow> Abort InvalidPointer
                               | Some r \<Rightarrow> Done \<lparr>m_node = r\<rparr> s3))))))"

text \<open>
  \<^verbatim>\<open>assert(pos.node_ != nullptr); auto* temp = pos.node_->next_node->next_node;
  delete pos.node_->next_node; pos.node_->next_node = temp; --size_;
  return Iterator{ pos.node_->next_node };\<close>
\<close>

definition EraseAfter ::
  "lid \<Rightarrow> BasicIterator \<Rightarrow> 'a state \<Rightarrow> (BasicIterator, 'a state) outcome" where
  "EraseAfter this pos s =
     (case m_node pos of
        None \<Rightarrow> Abort AssertionFailed
      | Some p \<Rightarrow>
          (case get_next s p of
             None \<Rightarrow> Abort InvalidPointer
           | Some None \<Rightarrow> Abort InvalidPointer
           | Some (Some victim) \<Rightarrow>
               (case get_next s victim of
                  None \<Rightarrow> Abort InvalidPointer
                | Some temp \<Rightarrow>
                    (case delete_Node victim s of
                       None \<Rightarrow> Abort InvalidPointer
                     | Some s1 \<Rightarrow>
                         (case set_next p temp s1 of
                            None \<Rightarrow> Abort InvalidPointer
                          | Some s2 \<Rightarrow>
                              (case decr_size this s2 of
                                 None \<Rightarrow> Abort InvalidPointer
                               | Some s3 \<Rightarrow>
                                   (case get_next s3 p of
                                      None \<Rightarrow> Abort InvalidPointer
                                    | Some r \<Rightarrow> Done \<lparr>m_node = r\<rparr> s3)))))))"

text \<open>
  \<^verbatim>\<open>std::swap(other.head_.next_node, head_.next_node); std::swap(other.size_, size_);\<close>
\<close>

definition Swap :: "lid \<Rightarrow> lid \<Rightarrow> 'a state \<Rightarrow> (unit, 'a state) outcome" where
  "Swap this other s =
     (case objs s this of
        None \<Rightarrow> Abort InvalidPointer
      | Some A \<Rightarrow>
          (case objs s other of
             None \<Rightarrow> Abort InvalidPointer
           | Some B \<Rightarrow>
               Done () (s\<lparr>objs := (objs s)
                 (other \<mapsto> B\<lparr>head_next_node := head_next_node A, m_size := m_size A\<rparr>,
                  this \<mapsto> A\<lparr>head_next_node := head_next_node B, m_size := m_size B\<rparr>)\<rparr>)))"

text \<open>
  \<^verbatim>\<open>while (head_.next_node != nullptr) { auto* temp = (head_.next_node)->next_node;
  delete head_.next_node; head_.next_node = temp; } size_ = 0;\<close>
  The loop is a partial function: \<open>None\<close> is a loop that never ends.
\<close>

partial_function (option) Clear_loop ::
  "lid \<Rightarrow> 'a state \<Rightarrow> (unit, 'a state) outcome option" where
  "Clear_loop this s =
     (case objs s this of
        None \<Rightarrow> Some (Abort InvalidPointer)
      | Some L \<Rightarrow>
          (case head_next_node L of
             None \<Rightarrow> Some (Done () s)
           | Some p \<Rightarrow>
               (case get_next s p of
                  None \<Rightarrow> Some (Abort InvalidPointer)
                | Some temp \<Rightarrow>
                    (case delete_Node p s of
                       None \<Rightarrow> Some (Abort InvalidPointer)
                     | Some s1 \<Rightarrow>
                         (case set_next (Sentinel this) temp s1 of
                            None \<Rightarrow> Some (Abort InvalidPointer)
                          | Some s2 \<Rightarrow> Clear_loop this s2)))))"

definition set_size :: "lid \<Rightarrow> nat \<Rightarrow> 'a state \<Rightarrow> 'a state option" where
  "set_size this n s =
     (case objs s this of
        None \<Rightarrow> None
      | Some L \<Rightarrow> Some (s\<lparr>objs := (objs s)(this \<mapsto> L\<lparr>m_size := n\<rparr>)\<rparr>))"

definition Clear :: "lid \<Rightarrow> 'a state \<Rightarrow> (unit, 'a state) outcome option" where
  "Clear this s =
     (case Clear_loop this s of
        None \<Rightarrow> None
      | Some (Abort e) \<Rightarrow> Some (Abort e)
      | Some (Throw s') \<Rightarrow> Some (Throw s')
      | Some (Done u s1) \<Rightarrow>
          (case set_size this 0 s1 of
             None \<Rightarrow> Some (Abort InvalidPointer)
           | Some s2 \<Rightarrow> Some (Done () s2)))"

text \<open>
  \<^verbatim>\<open>~SingleLinkedList() { Clear(); }\<close> at the end of the object's lifetime, after which
  its storage is gone.
\<close>

definition destroy :: "lid \<Rightarrow> 'a state \<Rightarrow> (unit, 'a state) outcome option" where
  "destroy this s =
     (case Clear this s of
        None \<Rightarrow> None
      | Some (Abort e) \<Rightarrow> Some (Abort e)
      | Some (Throw s') \<Rightarrow> Some (Throw s')
      | Some (Done u s1) \<Rightarrow> Some (Done () (release_object this s1)))"

text \<open>\<^verbatim>\<open>SingleLinkedList() {}\<close> for a newly declared list.\<close>

definition SingleLinkedList_default :: "'a state \<Rightarrow> (lid, 'a state) outcome" where
  "SingleLinkedList_default s = (case new_object s of (this, s1) \<Rightarrow> Done this s1)"

text \<open>
  \<^verbatim>\<open>for (auto it = rbegin(values); it < rend(values); ++it) { PushFront(*it); }\<close>
  The reverse iteration over the initializer list is an iteration over the reversed
  list of values.
\<close>

fun PushFront_each :: "lid \<Rightarrow> 'a list \<Rightarrow> 'a state \<Rightarrow> (unit, 'a state) outcome" where
  "PushFront_each this [] s = Done () s"
| "PushFront_each this (v # vs) s =
     (case PushFront this v s of
        Abort e \<Rightarrow> Abort e
      | Throw s' \<Rightarrow> Throw s'
      | Done u s1 \<Rightarrow> PushFront_each this vs s1)"

text \<open>
  The declaration of a list from an initializer list. When a \<^verbatim>\<open>PushFront\<close> throws, the
  constructor is left, the destructor does not run and the storage is released.
\<close>

definition SingleLinkedList_init :: "'a list \<Rightarrow> 'a state \<Rightarrow> (lid, 'a state) outcome" where
  "SingleLinkedList_init values s =
     (case new_object s of
        (this, s1) \<Rightarrow>
          (case PushFront_each this (rev values) s1 of
             Abort e \<Rightarrow> Abort e
           | Throw s' \<Rightarrow> Throw (release_object this s')
           | Done u s2 \<Rightarrow> Done this s2))"

text \<open>
  The range-based loop of the copy constructor,
  \<^verbatim>\<open>for (const auto& value : other) { temp_it = InsertAfter(temp_it, value); }\<close>,
  from the position \<open>it\<close> in \<open>other\<close>: \<^verbatim>\<open>InsertAfter\<close> is called on \<open>this\<close>, with
  an iterator into \<open>temp\<close>.
\<close>

partial_function (option) copy_loop ::
  "lid \<Rightarrow> lid \<Rightarrow> BasicIterator \<Rightarrow> BasicIterator \<Rightarrow> 'a state
     \<Rightarrow> (BasicIterator, 'a state) outcome option" where
  "copy_loop this other it temp_it s =
     (if it_neq it (cend other) then
        (case it_deref it s of
           Inl e \<Rightarrow> Some (Abort e)
         | Inr val \<Rightarrow>
             (case InsertAfter this temp_it val s of
                Abort e \<Rightarrow> Some (Abort e)
              | Throw s' \<Rightarrow> Some (Throw s')
              | Done temp_it' s1 \<Rightarrow>
                  (case it_incr it s1 of
                     Inl e \<Rightarrow> Some (Abort e)
                   | Inr it' \<Rightarrow> copy_loop this other it' temp_it' s1)))
      else Some (Done temp_it s))"

text \<open>
  The body of the copy constructor, run on the storage \<open>this\<close> after its member
  initialisers:
  \<^verbatim>\<open>assert(size_ == 0 && head_.next_node == nullptr); SingleLinkedList temp;
  auto temp_it = temp.cbefore_begin(); for (...) {...}
  temp.size_ = other.size_; Swap(temp);\<close>
  The local \<open>temp\<close> is destroyed when the body is left, by return or by exception.
\<close>

definition copy_body :: "lid \<Rightarrow> lid \<Rightarrow> 'a state \<Rightarrow> (unit, 'a state) outcome option" where
  "copy_body this other s =
     (case objs s this of
        None \<Rightarrow> Some (Abort InvalidPointer)
      | Some L \<Rightarrow>
          if \<not> (m_size L = 0 \<and> head_next_node L = None) then Some (Abort AssertionFailed)
          else
            (case new_object s of
               (temp, s1) \<Rightarrow>
                 (case cbegin other s1 of
                    Inl e \<Rightarrow> Some (Abort e)
                  | Inr it \<Rightarrow>
                      (case copy_loop this other it (cbefore_begin temp) s1 of
                         None \<Rightarrow> None
                       | Some (Abort e) \<Rightarrow> Some (Abort e)
                       | Some (Throw s') \<Rightarrow>
                           (case destroy temp s' of
                              None \<Rightarrow> None
                            | Some (Done u s'') \<Rightarrow> Some (Throw s'')
                            | Some (Throw s'') \<Rightarrow> Some (Throw s'')
                            | Some (Abort e) \<Rightarrow> Some (Abort e))
                       | Some (Done temp_it s2) \<Rightarrow>
                           (case GetSize other s2 of
                              Inl e \<Rightarrow> Some (Abort e)
                            | Inr n \<Rightarrow>
                                (case set_size temp n s2 of
                                   None \<Rightarrow> Some (Abort InvalidPointer)
                                 | Some s3 \<Rightarrow>
                                     (case Swap this temp s3 of
                                        Abort e \<Rightarrow> Some (Abort e)
                                      | Throw s' \<Rightarrow> Some (Throw s')
                                      | Done u s4 \<Rightarrow> destroy temp s4)))))))"

text \<open>
  The declaration of a list as a copy of \<open>other\<close>. When the body throws, the storage
  of the unfinished object is released.
\<close>

definition SingleLinkedList_copy :: "lid \<Rightarrow> 'a state \<Rightarrow> (lid, 'a state) outcome option" where
  "SingleLinkedList_copy other s =
     (case new_object s of
        (this, s1) \<Rightarrow>
          (case copy_body this other s1 of
             None \<Rightarrow> None
           | Some (Abort e) \<Rightarrow> Some (Abort e)
           | Some (Throw s') \<Rightarrow> Some (Throw (release_object this s'))
           | Some (Done u s2) \<Rightarrow> Some (Done this s2)))"

text \<open>
  \<^verbatim>\<open>if (this != &rhs) { SingleLinkedList temp(rhs); Swap(temp); } return *this;\<close>
\<close>

definition assign :: "lid \<Rightarrow> lid \<Rightarrow> 'a state \<Rightarrow> (unit, 'a state) outcome option" where
  "assign this rhs s =
     (if this \<noteq> rhs then
        (case SingleLinkedList_copy rhs s of
           None \<Rightarrow> None
         | Some (Abort e) \<Rightarrow> Some (Abort e)
         | Some (Throw s') \<Rightarrow> Some (Throw s')
         | Some (Done temp s1) \<Rightarrow>
             (case Swap this temp s1 of
                Abort e \<Rightarrow> Some (Abort e)
              | Throw s' \<Rightarrow> Some (Throw s')
              | Done u s2 \<Rightarrow> destroy temp s2))
      else Some (Done () s))"

section \<open>Forward traversal\<close>

text \<open>
  The traversal a caller writes with the iterators of a list,
  \<^verbatim>\<open>for (auto it = list.begin(); it != list.end(); ++it) out.push_back(*it);\<close>,
  collecting the values it meets.
\<close>

partial_function (option) traverse ::
  "BasicIterator \<Rightarrow> BasicIterator \<Rightarrow> 'a state \<Rightarrow> (fault + 'a list) option" where
  "traverse it stop s =
     (if it_neq it stop then
        (case it_deref it s of
           Inl e \<Rightarrow> Some (Inl e)
         | Inr val \<Rightarrow>
             (case it_incr it s of
                Inl e \<Rightarrow> Some (Inl e)
              | Inr it' \<Rightarrow>
                  Option.bind (traverse it' stop s)
                    (\<lambda>r. Some (case r of Inl e \<Rightarrow> Inl e | Inr vals \<Rightarrow> Inr (val # vals)))))
      else Some (Inr []))"

definition to_list :: "lid \<Rightarrow> 'a state \<Rightarrow> (fault + 'a list) option" where
  "to_list this s =
     (case begin_it this s of
        Inl e \<Rightarrow> Some (Inl e)
      | Inr b \<Rightarrow> traverse b (end_it this) s)"

section \<open>The comparison operators\<close>

text \<open>
  \<^verbatim>\<open>std::equal(first1, last1, first2, last2)\<close> on forward iterators, as the standard
  library runs it: \<^verbatim>\<open>for (; first1 != last1 && first2 != last2; ++first1, ++first2)
  if (!(*first1 == *first2)) return false; return first1 == last1 && first2 == last2;\<close>
  The comparison \<^verbatim>\<open>*first1 == *first2\<close> is \<^verbatim>\<open>operator==\<close> of the element type: it is the
  parameter \<open>eq\<close>.
\<close>

partial_function (option) std_equal_by ::
  "('a \<Rightarrow> 'a \<Rightarrow> bool) \<Rightarrow> BasicIterator \<Rightarrow> BasicIterator \<Rightarrow> BasicIterator \<Rightarrow> BasicIterator
     \<Rightarrow> 'a state \<Rightarrow> (fault + bool) option" where
  "std_equal_by eq first1 last1 first2 last2 s =
     (if it_neq first1 last1 \<and> it_neq first2 last2 then
        (case it_deref first1 s of
           Inl e \<Rightarrow> Some (Inl e)
         | Inr v1 \<Rightarrow>
             (case it_deref first2 s of
                Inl e \<Rightarrow> Some (Inl e)
              | Inr v2 \<Rightarrow>
                  if \<not> eq v1 v2 then Some (Inr False)
                  else
                    (case it_incr first1 s of
                       Inl e \<Rightarrow> Some (Inl e)
                     | Inr next1 \<Rightarrow>
                         (case it_incr first2 s of
                            Inl e \<Rightarrow> Some (Inl e)
                          | Inr next2 \<Rightarrow> std_equal_by eq next1 last1 next2 last2 s))))
      else Some (Inr (it_eq first1 last1 \<and> it_eq first2 last2)))"

text \<open>
  At an element type whose \<^verbatim>\<open>operator==\<close> is the equality of values, as the integers
  are.
\<close>

definition std_equal ::
  "BasicIterator \<Rightarrow> BasicIterator \<Rightarrow> BasicIterator \<Rightarrow> BasicIterator \<Rightarrow> 'a state
     \<Rightarrow> (fault + bool) option" where
  "std_equal first1 last1 first2 last2 s = std_equal_by (=) first1 last1 first2 last2 s"

text \<open>
  \<^verbatim>\<open>std::lexicographical_compare(first1, last1, first2, last2)\<close>:
  \<^verbatim>\<open>for (; first1 != last1 && first2 != last2; ++first1, ++first2) {
  if (*first1 < *first2) return true; if (*first2 < *first1) return false; }
  return first1 == last1 && first2 != last2;\<close>
\<close>

partial_function (option) std_lexicographical_compare ::
  "BasicIterator \<Rightarrow> BasicIterator \<Rightarrow> BasicIterator \<Rightarrow> BasicIterator \<Rightarrow> ('a::linorder) state
     \<Rightarrow> (fault + bool) option" where
  "std_lexicographical_compare first1 last1 first2 last2 s =
     (if it_neq first1 last1 \<and> it_neq first2 last2 then
        (case it_deref first1 s of
           Inl e \<Rightarrow> Some (Inl e)
         | Inr v1 \<Rightarrow>
             (case it_deref first2 s of
                Inl e \<Rightarrow> Some (Inl e)
              | Inr v2 \<Rightarrow>
                  if v1 < v2 then Some (Inr True)
                  else if v2 < v1 then Some (Inr False)
                  else
                    (case it_incr first1 s of
                       Inl e \<Rightarrow> Some (Inl e)
                     | Inr next1 \<Rightarrow>
                         (case it_incr first2 s of
                            Inl e \<Rightarrow> Some (Inl e)
                          | Inr next2 \<Rightarrow>
                              std_lexicographical_compare next1 last1 next2 last2 s))))
      else Some (Inr (it_eq first1 last1 \<and> it_neq first2 last2)))"

text \<open>
  \<^verbatim>\<open>operator==\<close>, \<^verbatim>\<open>operator!=\<close>, \<^verbatim>\<open>operator<\<close>, \<^verbatim>\<open>operator>\<close>, \<^verbatim>\<open>operator<=\<close>, \<^verbatim>\<open>operator>=\<close>
  of two lists. \<open>op_eq_by eq\<close> is \<^verbatim>\<open>operator==\<close> at an element type whose
  \<^verbatim>\<open>operator==\<close> is \<open>eq\<close>; \<open>op_eq\<close> is \<^verbatim>\<open>operator==\<close> at an element type whose
  \<^verbatim>\<open>operator==\<close> is the equality of values.
\<close>

definition op_eq_by :: "('a \<Rightarrow> 'a \<Rightarrow> bool) \<Rightarrow> lid \<Rightarrow> lid \<Rightarrow> 'a state \<Rightarrow> (fault + bool) option" where
  "op_eq_by eq lhs rhs s =
     (case cbegin lhs s of
        Inl e \<Rightarrow> Some (Inl e)
      | Inr b1 \<Rightarrow>
          (case cbegin rhs s of
             Inl e \<Rightarrow> Some (Inl e)
           | Inr b2 \<Rightarrow> std_equal_by eq b1 (cend lhs) b2 (cend rhs) s))"

definition op_eq :: "lid \<Rightarrow> lid \<Rightarrow> 'a state \<Rightarrow> (fault + bool) option" where
  "op_eq lhs rhs s =
     (case cbegin lhs s of
        Inl e \<Rightarrow> Some (Inl e)
      | Inr b1 \<Rightarrow>
          (case cbegin rhs s of
             Inl e \<Rightarrow> Some (Inl e)
           | Inr b2 \<Rightarrow> std_equal b1 (cend lhs) b2 (cend rhs) s))"

definition negate :: "(fault + bool) option \<Rightarrow> (fault + bool) option" where
  "negate r = map_option (map_sum id Not) r"


definition op_less :: "lid \<Rightarrow> lid \<Rightarrow> ('a::linorder) state \<Rightarrow> (fault + bool) option" where
  "op_less lhs rhs s =
     (case cbegin lhs s of
        Inl e \<Rightarrow> Some (Inl e)
      | Inr b1 \<Rightarrow>
          (case cbegin rhs s of
             Inl e \<Rightarrow> Some (Inl e)
           | Inr b2 \<Rightarrow> std_lexicographical_compare b1 (cend lhs) b2 (cend rhs) s))"

definition op_greater :: "lid \<Rightarrow> lid \<Rightarrow> ('a::linorder) state \<Rightarrow> (fault + bool) option" where
  "op_greater lhs rhs s = op_less rhs lhs s"

definition op_less_eq :: "lid \<Rightarrow> lid \<Rightarrow> ('a::linorder) state \<Rightarrow> (fault + bool) option" where
  "op_less_eq lhs rhs s = negate (op_greater lhs rhs s)"

definition op_greater_eq :: "lid \<Rightarrow> lid \<Rightarrow> ('a::linorder) state \<Rightarrow> (fault + bool) option" where
  "op_greater_eq lhs rhs s = negate (op_less lhs rhs s)"

section \<open>The abstraction: the cells of a list\<close>

fun cells :: "(addr \<Rightarrow> 'a Node option) \<Rightarrow> ptr option \<Rightarrow> (addr \<times> 'a) list \<Rightarrow> bool" where
  "cells h p [] = (p = None)"
| "cells h p ((a, v) # cs) =
     (p = Some (Cell a) \<and>
      (case h a of
         None \<Rightarrow> False
       | Some n \<Rightarrow> node_value n = v \<and> cells h (next_node n) cs))"

definition list_at :: "'a state \<Rightarrow> lid \<Rightarrow> (addr \<times> 'a) list \<Rightarrow> bool" where
  "list_at s l cs =
     (case objs s l of
        None \<Rightarrow> False
      | Some L \<Rightarrow> cells (heap s) (head_next_node L) cs \<and> m_size L = length cs)"

text \<open>The position after the prefix xs of a list: its sentinel, or the last cell of xs.\<close>

definition pos_after :: "lid \<Rightarrow> (addr \<times> 'a) list \<Rightarrow> ptr" where
  "pos_after l xs = (if xs = [] then Sentinel l else Cell (fst (last xs)))"

definition first_of :: "(addr \<times> 'a) list \<Rightarrow> ptr option" where
  "first_of cs = (case cs of [] \<Rightarrow> None | (a, v) # _ \<Rightarrow> Some (Cell a))"

definition live :: "'a state \<Rightarrow> lid \<Rightarrow> bool" where
  "live s l = (objs s l \<noteq> None)"

definition size_of :: "'a state \<Rightarrow> lid \<Rightarrow> nat option" where
  "size_of s l = map_option m_size (objs s l)"

definition alloc_fresh :: "'a state \<Rightarrow> bool" where
  "alloc_fresh s \<longleftrightarrow>
     distinct (filter (\<lambda>x. x \<noteq> None) (allocs s)) \<and>
     (\<forall>a. Some a \<in> set (allocs s) \<longrightarrow> heap s a = None \<and> valid_addr a) \<and>
     (\<forall>a. heap s a \<noteq> None \<longrightarrow> valid_addr a)"

definition shape :: "'a state \<Rightarrow> (lid \<Rightarrow> (addr \<times> 'a) list) \<Rightarrow> bool" where
  "shape s \<sigma> \<longleftrightarrow>
     (\<forall>l L. objs s l = Some L \<longrightarrow> cells (heap s) (head_next_node L) (\<sigma> l)) \<and>
     (\<forall>l l'. l \<noteq> l' \<longrightarrow> objs s l \<noteq> None \<longrightarrow> objs s l' \<noteq> None \<longrightarrow>
        set (map fst (\<sigma> l)) \<inter> set (map fst (\<sigma> l')) = {}) \<and>
     (\<forall>l. next_obj s \<le> l \<longrightarrow> objs s l = None) \<and>
     alloc_fresh s"

definition sizes_ok :: "'a state \<Rightarrow> (lid \<Rightarrow> (addr \<times> 'a) list) \<Rightarrow> bool" where
  "sizes_ok s \<sigma> \<longleftrightarrow> (\<forall>l L. objs s l = Some L \<longrightarrow> m_size L = length (\<sigma> l))"

definition models :: "'a state \<Rightarrow> (lid \<Rightarrow> (addr \<times> 'a) list) \<Rightarrow> bool" where
  "models s \<sigma> \<longleftrightarrow> shape s \<sigma> \<and> sizes_ok s \<sigma>"

definition ex_state :: "int state" where
  "ex_state =
     \<lparr>objs = [0 \<mapsto> \<lparr>head_next_node = Some (Cell 10), m_size = 3\<rparr>,
              1 \<mapsto> \<lparr>head_next_node = Some (Cell 20), m_size = 4\<rparr>],
      heap = [10 \<mapsto> \<lparr>node_value = 1, next_node = Some (Cell 11)\<rparr>,
              11 \<mapsto> \<lparr>node_value = 2, next_node = Some (Cell 12)\<rparr>,
              12 \<mapsto> \<lparr>node_value = 3, next_node = None\<rparr>,
              20 \<mapsto> \<lparr>node_value = 1, next_node = Some (Cell 21)\<rparr>,
              21 \<mapsto> \<lparr>node_value = 2, next_node = Some (Cell 22)\<rparr>,
              22 \<mapsto> \<lparr>node_value = 3, next_node = Some (Cell 23)\<rparr>,
              23 \<mapsto> \<lparr>node_value = 4, next_node = None\<rparr>],
      next_obj = 2,
      allocs = [Some 30, Some 31, Some 32, None]\<rparr>"

definition ex_abs :: "lid \<Rightarrow> (addr \<times> int) list" where
  "ex_abs l =
     (if l = 0 then [(10, 1), (11, 2), (12, 3)]
      else if l = 1 then [(20, 1), (21, 2), (22, 3), (23, 4)]
      else [])"

definition ex_full :: "int state" where
  "ex_full = ex_state\<lparr>allocs := [None, Some 30]\<rparr>"

definition contents :: "(addr \<times> 'a) list \<Rightarrow> 'a list" where
  "contents cs = map snd cs"

text \<open>
  The public operations, as values: what a caller can do to the lists of a state.
\<close>

datatype 'a operation =
    Op_default
  | Op_init "'a list"
  | Op_copy lid
  | Op_PushFront lid 'a
  | Op_PopFront lid
  | Op_InsertAfter lid BasicIterator 'a
  | Op_EraseAfter lid BasicIterator
  | Op_Clear lid
  | Op_Swap lid lid
  | Op_assign lid lid
  | Op_write lid BasicIterator 'a
  | Op_destroy lid

datatype result = Nothing | Iter BasicIterator | Object lid

fun exec :: "'a operation \<Rightarrow> 'a state \<Rightarrow> (result, 'a state) outcome option" where
  "exec Op_default s = Some (map_result Object (SingleLinkedList_default s))"
| "exec (Op_init vs) s = Some (map_result Object (SingleLinkedList_init vs s))"
| "exec (Op_copy other) s = map_option (map_result Object) (SingleLinkedList_copy other s)"
| "exec (Op_PushFront l v) s = Some (map_result (\<lambda>u. Nothing) (PushFront l v s))"
| "exec (Op_PopFront l) s = Some (map_result (\<lambda>u. Nothing) (PopFront l s))"
| "exec (Op_InsertAfter l pos v) s = Some (map_result Iter (InsertAfter l pos v s))"
| "exec (Op_EraseAfter l pos) s = Some (map_result Iter (EraseAfter l pos s))"
| "exec (Op_Clear l) s = map_option (map_result (\<lambda>u. Nothing)) (Clear l s)"
| "exec (Op_Swap a b) s = Some (map_result (\<lambda>u. Nothing) (Swap a b s))"
| "exec (Op_assign a b) s = map_option (map_result (\<lambda>u. Nothing)) (assign a b s)"
| "exec (Op_write l pos v) s = Some (map_result (\<lambda>u. Nothing) (it_assign pos v s))"
| "exec (Op_destroy l) s = map_option (map_result (\<lambda>u. Nothing)) (destroy l s)"

text \<open>
  What the interface asks of the caller: a list that is named exists, and a position
  handed to \<^verbatim>\<open>InsertAfter\<close> or \<^verbatim>\<open>EraseAfter\<close> references the sentinel or a node of that
  very list. \<open>Op_write l pos v\<close> is the assignment \<^verbatim>\<open>*pos = v\<close> through an iterator \<open>pos\<close>
  at a node of \<open>l\<close>, \<open>Op_destroy l\<close> the end of the lifetime of \<open>l\<close>.
\<close>

definition valid_pos :: "'a state \<Rightarrow> lid \<Rightarrow> BasicIterator \<Rightarrow> bool" where
  "valid_pos s l pos \<longleftrightarrow>
     (\<exists>cs. list_at s l cs \<and>
        (m_node pos = Some (Sentinel l) \<or> (\<exists>a \<in> set (map fst cs). m_node pos = Some (Cell a))))"

fun pre :: "'a operation \<Rightarrow> 'a state \<Rightarrow> bool" where
  "pre Op_default s = True"
| "pre (Op_init vs) s = True"
| "pre (Op_copy other) s = live s other"
| "pre (Op_PushFront l v) s = live s l"
| "pre (Op_PopFront l) s = live s l"
| "pre (Op_InsertAfter l pos v) s = valid_pos s l pos"
| "pre (Op_EraseAfter l pos) s = valid_pos s l pos"
| "pre (Op_Clear l) s = live s l"
| "pre (Op_Swap a b) s = (live s a \<and> live s b)"
| "pre (Op_assign a b) s = (live s a \<and> live s b)"
| "pre (Op_write l pos v) s = (valid_pos s l pos \<and> m_node pos \<noteq> Some (Sentinel l))"
| "pre (Op_destroy l) s = live s l"

text \<open>The lists an operation is asked to change.\<close>

fun targets :: "'a operation \<Rightarrow> lid set" where
  "targets Op_default = {}"
| "targets (Op_init vs) = {}"
| "targets (Op_copy other) = {}"
| "targets (Op_PushFront l v) = {l}"
| "targets (Op_PopFront l) = {l}"
| "targets (Op_InsertAfter l pos v) = {l}"
| "targets (Op_EraseAfter l pos) = {l}"
| "targets (Op_Clear l) = {l}"
| "targets (Op_Swap a b) = {a, b}"
| "targets (Op_assign a b) = {a}"
| "targets (Op_write l pos v) = {l}"
| "targets (Op_destroy l) = {l}"

definition well_formed :: "'a state \<Rightarrow> bool" where
  "well_formed s \<longleftrightarrow> (\<exists>\<sigma>. models s \<sigma>)"

text \<open>
  The state \<open>s'\<close> is well-formed, and every list of \<open>s\<close> outside \<open>T\<close> is still there with
  the cells it had.
\<close>

definition keeps :: "'a state \<Rightarrow> (lid \<Rightarrow> (addr \<times> 'a) list) \<Rightarrow> lid set \<Rightarrow> 'a state \<Rightarrow> bool" where
  "keeps s \<sigma> T s' \<longleftrightarrow>
     (\<exists>\<sigma>'. models s' \<sigma>' \<and> (\<forall>l. live s l \<longrightarrow> l \<notin> T \<longrightarrow> live s' l \<and> \<sigma>' l = \<sigma> l))"

text \<open>The state in which a program starts: no list, no node.\<close>

definition initial_state :: "addr option list \<Rightarrow> 'a state" where
  "initial_state oracle = \<lparr>objs = Map.empty, heap = Map.empty, next_obj = 0, allocs = oracle\<rparr>"

text \<open>
  An element type like \<^verbatim>\<open>double\<close>, cut down to what matters here: the integers and one
  NaN, with the \<^verbatim>\<open>operator==\<close> of IEEE 754, under which a NaN is equal to nothing, itself
  included.
\<close>

datatype number = NaN | Num int

fun number_eq :: "number \<Rightarrow> number \<Rightarrow> bool" where
  "number_eq (Num a) (Num b) = (a = b)"
| "number_eq NaN y = False"
| "number_eq x NaN = False"

text \<open>
  A state with the one list \<^verbatim>\<open>{NaN, 1.0}\<close> and two allocations to come, and the state
  after that list has been copied.
\<close>

definition nan_state :: "number state" where
  "nan_state =
     \<lparr>objs = [0 \<mapsto> \<lparr>head_next_node = Some (Cell 10), m_size = 2\<rparr>],
      heap = [10 \<mapsto> \<lparr>node_value = NaN, next_node = Some (Cell 11)\<rparr>,
              11 \<mapsto> \<lparr>node_value = Num 1, next_node = None\<rparr>],
      next_obj = 1,
      allocs = [Some 30, Some 31]\<rparr>"

definition nan_abs :: "lid \<Rightarrow> (addr \<times> number) list" where
  "nan_abs l = (if l = 0 then [(10, NaN), (11, Num 1)] else [])"

definition nan_copied :: "number state" where
  "nan_copied =
     \<lparr>objs = [0 \<mapsto> \<lparr>head_next_node = Some (Cell 10), m_size = 2\<rparr>,
              1 \<mapsto> \<lparr>head_next_node = Some (Cell 30), m_size = 2\<rparr>],
      heap = [10 \<mapsto> \<lparr>node_value = NaN, next_node = Some (Cell 11)\<rparr>,
              11 \<mapsto> \<lparr>node_value = Num 1, next_node = None\<rparr>,
              30 \<mapsto> \<lparr>node_value = NaN, next_node = Some (Cell 31)\<rparr>,
              31 \<mapsto> \<lparr>node_value = Num 1, next_node = None\<rparr>],
      next_obj = 3,
      allocs = []\<rparr>"

section \<open>Properties\<close>

subsection \<open>Chains of nodes\<close>

lemma cells_Cons:
  "cells h p ((a, v) # cs) \<longleftrightarrow>
   p = Some (Cell a) \<and> (\<exists>n. h a = Some n \<and> node_value n = v \<and> cells h (next_node n) cs)"
  by (cases "h a") simp_all

declare cells.simps(2) [simp del]

declare cells_Cons [simp]

lemma cells_frame:
  "cells h p cs \<Longrightarrow> (\<And>a. a \<in> fst ` set cs \<Longrightarrow> h' a = h a) \<Longrightarrow> cells h' p cs"
proof (induction cs arbitrary: p)
  case Nil
  then show ?case by simp
next
  case (Cons c cs)
  obtain a v where c: "c = (a, v)" by (cases c)
  from Cons.prems(1) c obtain n where n: "p = Some (Cell a)" "h a = Some n" "node_value n = v"
    "cells h (next_node n) cs"
    by auto
  from Cons.prems(2) c have "h' a = h a" by simp
  moreover have "cells h' (next_node n) cs"
    using n(4) Cons.prems(2) by (intro Cons.IH) auto
  ultimately show ?case using n c by simp
qed

lemma cells_unique: "cells h p cs \<Longrightarrow> cells h p cs' \<Longrightarrow> cs = cs'"
proof (induction cs arbitrary: p cs')
  case Nil
  then show ?case by (cases cs') auto
next
  case (Cons c cs)
  obtain a v where c: "c = (a, v)" by (cases c)
  from Cons.prems(1) c obtain n where n: "p = Some (Cell a)" "h a = Some n" "node_value n = v"
    "cells h (next_node n) cs"
    by auto
  from Cons.prems(2) n(1) obtain c' ds where cs': "cs' = c' # ds" by (cases cs') auto
  obtain a' v' where c': "c' = (a', v')" by (cases c')
  from Cons.prems(2) n cs' c' have "a' = a" "v' = v" "cells h (next_node n) ds"
    by auto
  with Cons.IH[OF n(4)] c c' cs' show ?case by simp
qed

lemma cells_live: "cells h p cs \<Longrightarrow> a \<in> fst ` set cs \<Longrightarrow> h a \<noteq> None"
proof (induction cs arbitrary: p)
  case Nil
  then show ?case by simp
next
  case (Cons c cs)
  obtain b v where c: "c = (b, v)" by (cases c)
  from Cons.prems(1) c obtain n where n: "h b = Some n" "cells h (next_node n) cs"
    by auto
  show ?case
  proof (cases "a = b")
    case True
    with n show ?thesis by simp
  next
    case False
    with Cons.prems(2) c have "a \<in> fst ` set cs" by auto
    with n(2) show ?thesis by (rule Cons.IH)
  qed
qed

lemma cells_drop_prefix:
  "cells h p (xs @ (a, v) # ys) \<Longrightarrow> cells h (Some (Cell a)) ((a, v) # ys)"
proof (induction xs arbitrary: p)
  case Nil
  then show ?case by simp
next
  case (Cons x xs)
  obtain b w where x: "x = (b, w)" by (cases x)
  from Cons.prems x obtain n where "h b = Some n" "cells h (next_node n) (xs @ (a, v) # ys)"
    by auto
  then show ?case using Cons.IH by blast
qed

lemma cells_head_notin_tail:
  assumes "cells h (Some (Cell a)) ((a, w) # cs)"
  shows "a \<notin> fst ` set cs"
proof
  assume "a \<in> fst ` set cs"
  then obtain v where "(a, v) \<in> set cs" by auto
  then obtain xs ys where cs: "cs = xs @ (a, v) # ys"
    by (meson split_list)
  from assms obtain n where n: "h a = Some n" "cells h (next_node n) cs"
    by auto
  from n(2) have "cells h (Some (Cell a)) ((a, v) # ys)"
    unfolding cs by (rule cells_drop_prefix)
  with n have "cells h (next_node n) ys" by simp
  with n(2) have "cs = ys" by (rule cells_unique)
  with cs show False by simp
qed

lemma cells_distinct: "cells h p cs \<Longrightarrow> distinct (map fst cs)"
proof (induction cs arbitrary: p)
  case Nil
  then show ?case by simp
next
  case (Cons c cs)
  obtain a v where c: "c = (a, v)" by (cases c)
  from Cons.prems c have "cells h (Some (Cell a)) ((a, v) # cs)" by simp
  then have "a \<notin> fst ` set cs" by (rule cells_head_notin_tail)
  moreover from Cons.prems c obtain n where "h a = Some n" "cells h (next_node n) cs"
    by auto
  then have "distinct (map fst cs)" using Cons.IH by blast
  ultimately show ?case using c by simp
qed

lemma last_notin_suffix:
  "xs \<noteq> [] \<Longrightarrow> distinct (map fst (xs @ ys)) \<Longrightarrow> fst (last xs) \<notin> fst ` set ys"
  using last_appendR by fastforce

lemma head_notin_rest:
  "xs \<noteq> [] \<Longrightarrow> distinct (map fst (x # xs)) \<Longrightarrow> fst x \<noteq> fst (last xs)"
  by (metis distinct.simps(2) image_eqI last_in_set list.simps(9) set_map)

lemma cells_first: "cells h p cs \<Longrightarrow> p = first_of cs"
  by (cases cs) (auto simp: first_of_def)

lemma cells_last_next:
  "cells h p (xs @ ys) \<Longrightarrow> xs \<noteq> [] \<Longrightarrow>
   \<exists>n. h (fst (last xs)) = Some n \<and> node_value n = snd (last xs) \<and> cells h (next_node n) ys"
proof (induction xs arbitrary: p)
  case Nil
  then show ?case by simp
next
  case (Cons x xs)
  obtain b w where x: "x = (b, w)" by (cases x)
  from Cons.prems x obtain n where n: "h b = Some n" "node_value n = w"
    "cells h (next_node n) (xs @ ys)"
    by auto
  show ?case
  proof (cases "xs = []")
    case True
    with n x show ?thesis by simp
  next
    case False
    with Cons.IH[OF n(3)] show ?thesis by simp
  qed
qed

text \<open>Changing the link of the last cell of a prefix changes what follows the prefix.\<close>

lemma cells_relink:
  assumes "cells h p (xs @ ys)" "xs \<noteq> []" "h (fst (last xs)) = Some n"
    and hl: "h' (fst (last xs)) = Some (n\<lparr>next_node := q\<rparr>)"
    and ho: "\<And>b. b \<in> fst ` set xs \<Longrightarrow> b \<noteq> fst (last xs) \<Longrightarrow> h' b = h b"
    and zs: "cells h' q zs"
  shows "cells h' p (xs @ zs)"
  using assms(1,2,3) hl ho
proof (induction xs arbitrary: p)
  case Nil
  then show ?case by simp
next
  case (Cons x xs)
  obtain b w where x: "x = (b, w)" by (cases x)
  from Cons.prems(1) x obtain m where m: "p = Some (Cell b)" "h b = Some m" "node_value m = w"
    "cells h (next_node m) (xs @ ys)"
    by auto
  show ?case
  proof (cases "xs = []")
    case True
    with Cons.prems(3) x m have "n = m" by simp
    with True Cons.prems(4) x m zs show ?thesis by simp
  next
    case False
    from Cons.prems(1) have "distinct (map fst ((x # xs) @ ys))" by (rule cells_distinct)
    then have "distinct (map fst (x # xs))" by simp
    with False have ne: "fst x \<noteq> fst (last xs)" by (rule head_notin_rest)
    with Cons.prems(5)[of b] x False have hb: "h' b = h b" by simp
    have "cells h' (next_node m) (xs @ zs)"
    proof (rule Cons.IH[OF m(4) False])
      from Cons.prems(3) False show "h (fst (last xs)) = Some n" by simp
      from Cons.prems(4) False show "h' (fst (last xs)) = Some (n\<lparr>next_node := q\<rparr>)" by simp
      fix c assume "c \<in> fst ` set xs" "c \<noteq> fst (last xs)"
      with Cons.prems(5)[of c] False show "h' c = h c" by simp
    qed
    with hb m x show ?thesis by simp
  qed
qed

subsection \<open>Insertion and erasure in well-formed states\<close>

lemma InsertAfter_Cell:
  assumes "heap s b = Some n" "objs s this = Some L" "allocs s = Some a # rest" "a \<noteq> b"
  shows "InsertAfter this \<lparr>m_node = Some (Cell b)\<rparr> v s =
         Done \<lparr>m_node = Some (Cell a)\<rparr>
           (s\<lparr>heap := (heap s)(a \<mapsto> \<lparr>node_value = v, next_node = next_node n\<rparr>,
                              b \<mapsto> n\<lparr>next_node := Some (Cell a)\<rparr>),
              allocs := rest,
              objs := (objs s)(this \<mapsto> L\<lparr>m_size := incr (m_size L)\<rparr>)\<rparr>)"
  using assms
  by (simp add: InsertAfter_def get_next_def new_Node_def set_next_def incr_size_def)

lemma InsertAfter_Sentinel:
  assumes "objs s tgt = Some T" "objs s this = Some L" "allocs s = Some a # rest"
  shows "InsertAfter this \<lparr>m_node = Some (Sentinel tgt)\<rparr> v s =
         Done \<lparr>m_node = Some (Cell a)\<rparr>
           (s\<lparr>heap := (heap s)(a \<mapsto> \<lparr>node_value = v, next_node = head_next_node T\<rparr>),
              allocs := rest,
              objs := (objs s)(tgt \<mapsto> T\<lparr>head_next_node := Some (Cell a)\<rparr>,
                 this \<mapsto> (if this = tgt then T\<lparr>head_next_node := Some (Cell a)\<rparr> else L)
                            \<lparr>m_size := incr (m_size L)\<rparr>)\<rparr>)"
  using assms
  by (auto simp add: InsertAfter_def get_next_def new_Node_def set_next_def incr_size_def)

lemma shapeD_cells: "shape s \<sigma> \<Longrightarrow> objs s l = Some L \<Longrightarrow> cells (heap s) (head_next_node L) (\<sigma> l)"
  by (simp add: shape_def)

lemma shapeD_disj:
  "shape s \<sigma> \<Longrightarrow> l \<noteq> l' \<Longrightarrow> objs s l = Some L \<Longrightarrow> objs s l' = Some L' \<Longrightarrow>
   fst ` set (\<sigma> l) \<inter> fst ` set (\<sigma> l') = {}"
  unfolding shape_def set_map by blast

lemma shapeD_live:
  "shape s \<sigma> \<Longrightarrow> objs s l = Some L \<Longrightarrow> a \<in> fst ` set (\<sigma> l) \<Longrightarrow> heap s a \<noteq> None"
  using shapeD_cells cells_live by blast

text \<open>
  A step that touches the heap only inside the footprint of one list (or at unused
  addresses) and the links of no other list keeps the shape of all other lists.
\<close>

lemma shape_update:
  assumes sh: "shape s \<sigma>"
    and tg: "objs s tgt = Some T"
    and others: "\<And>l L'. objs s' l = Some L' \<Longrightarrow> l \<noteq> tgt \<Longrightarrow>
                   \<exists>L. objs s l = Some L \<and> head_next_node L' = head_next_node L"
    and frame: "\<And>b. heap s' b \<noteq> heap s b \<Longrightarrow> b \<in> fst ` set (\<sigma> tgt) \<or> heap s b = None"
    and new: "\<And>L'. objs s' tgt = Some L' \<Longrightarrow> cells (heap s') (head_next_node L') cs'"
    and foot: "\<And>b. b \<in> fst ` set cs' \<Longrightarrow> b \<in> fst ` set (\<sigma> tgt) \<or> heap s b = None"
    and stor: "\<And>l. next_obj s' \<le> l \<Longrightarrow> objs s' l = None"
    and fresh: "alloc_fresh s'"
  shows "shape s' (\<sigma>(tgt := cs'))"
proof -
  have other_foot: "\<And>l L b. l \<noteq> tgt \<Longrightarrow> objs s l = Some L \<Longrightarrow> b \<in> fst ` set (\<sigma> l) \<Longrightarrow>
      heap s' b = heap s b \<and> b \<notin> fst ` set cs'"
  proof -
    fix l L b assume l: "l \<noteq> tgt" "objs s l = Some L" "b \<in> fst ` set (\<sigma> l)"
    from sh l(2,3) have lv: "heap s b \<noteq> None" by (rule shapeD_live)
    from shapeD_disj[OF sh l(1) l(2) tg] l(3) have nin: "b \<notin> fst ` set (\<sigma> tgt)" by blast
    from frame[of b] lv nin have "heap s' b = heap s b" by blast
    moreover from foot[of b] lv nin have "b \<notin> fst ` set cs'" by blast
    ultimately show "heap s' b = heap s b \<and> b \<notin> fst ` set cs'" ..
  qed
  have c1: "\<forall>l L. objs s' l = Some L \<longrightarrow> cells (heap s') (head_next_node L) ((\<sigma>(tgt := cs')) l)"
  proof (intro allI impI)
    fix l L' assume l: "objs s' l = Some L'"
    show "cells (heap s') (head_next_node L') ((\<sigma>(tgt := cs')) l)"
    proof (cases "l = tgt")
      case True
      with l new show ?thesis by simp
    next
      case False
      from others[OF l False] obtain L where L: "objs s l = Some L"
        "head_next_node L' = head_next_node L" by blast
      from sh L(1) have "cells (heap s) (head_next_node L) (\<sigma> l)" by (rule shapeD_cells)
      then have "cells (heap s') (head_next_node L) (\<sigma> l)"
      proof (rule cells_frame)
        fix b assume "b \<in> fst ` set (\<sigma> l)"
        with other_foot[OF False L(1)] show "heap s' b = heap s b" by blast
      qed
      with L False show ?thesis by simp
    qed
  qed
  have c2: "\<forall>l l'. l \<noteq> l' \<longrightarrow> objs s' l \<noteq> None \<longrightarrow> objs s' l' \<noteq> None \<longrightarrow>
        fst ` set ((\<sigma>(tgt := cs')) l) \<inter> fst ` set ((\<sigma>(tgt := cs')) l') = {}"
  proof (intro allI impI)
    fix l l' assume ll: "l \<noteq> l'" "objs s' l \<noteq> None" "objs s' l' \<noteq> None"
    show "fst ` set ((\<sigma>(tgt := cs')) l) \<inter> fst ` set ((\<sigma>(tgt := cs')) l') = {}"
    proof (cases "l = tgt")
      case True
      with ll have l': "l' \<noteq> tgt" by simp
      with ll(3) others obtain L where "objs s l' = Some L" by blast
      with other_foot[OF l'] have "\<And>b. b \<in> fst ` set (\<sigma> l') \<Longrightarrow> b \<notin> fst ` set cs'" by blast
      with True l' show ?thesis by auto
    next
      case False
      with ll(2) others obtain L where L: "objs s l = Some L" by blast
      show ?thesis
      proof (cases "l' = tgt")
        case True
        from other_foot[OF False L] have "\<And>b. b \<in> fst ` set (\<sigma> l) \<Longrightarrow> b \<notin> fst ` set cs'" by blast
        with True False show ?thesis by auto
      next
        case l': False
        with ll(3) others obtain L' where "objs s l' = Some L'" by blast
        with shapeD_disj[OF sh ll(1) L] False l' show ?thesis by simp
      qed
    qed
  qed
  from c1 c2 stor fresh show ?thesis unfolding shape_def set_map by blast
qed

lemma alloc_fresh_tl:
  assumes "alloc_fresh s" "allocs s = x # rest" "allocs s' = rest"
    and "\<And>b. heap s' b \<noteq> heap s b \<Longrightarrow> Some b \<notin> set rest"
    and "\<And>b. heap s' b \<noteq> None \<Longrightarrow> heap s b \<noteq> None \<or> x = Some b"
  shows "alloc_fresh s'"
proof -
  from assms(1,2) have d: "distinct (filter (\<lambda>x. x \<noteq> None) rest)"
    by (auto simp: alloc_fresh_def split: if_splits)
  have "\<And>a. Some a \<in> set rest \<Longrightarrow> heap s' a = None \<and> valid_addr a"
  proof -
    fix a assume a: "Some a \<in> set rest"
    with assms(4) have "heap s' a = heap s a" by blast
    moreover from a assms(1,2) have "heap s a = None" "valid_addr a"
      by (simp_all add: alloc_fresh_def)
    ultimately show "heap s' a = None \<and> valid_addr a" by simp
  qed
  moreover have "\<And>a. heap s' a \<noteq> None \<Longrightarrow> valid_addr a"
  proof -
    fix a assume "heap s' a \<noteq> None"
    with assms(5) have "heap s a \<noteq> None \<or> x = Some a" by blast
    with assms(1,2) show "valid_addr a" by (auto simp: alloc_fresh_def)
  qed
  ultimately show ?thesis using d assms(3) unfolding alloc_fresh_def by blast
qed

lemma alloc_fresh_same:
  assumes "alloc_fresh s" "allocs s' = allocs s"
    and "\<And>b. heap s' b \<noteq> heap s b \<Longrightarrow> heap s b \<noteq> None"
  shows "alloc_fresh s'"
  using assms unfolding alloc_fresh_def by metis

lemma alloc_fresh_head:
  "alloc_fresh s \<Longrightarrow> allocs s = Some a # rest \<Longrightarrow> heap s a = None \<and> Some a \<notin> set rest"
  by (auto simp: alloc_fresh_def)

text \<open>
  A chain of nodes has fewer than \<open>2 ^ 64\<close> nodes, since its nodes have distinct non-null
  addresses: counting one more node does not wrap the counter around.
\<close>

lemma valid_addrs_length:
  assumes "distinct as" "\<forall>a \<in> set as. valid_addr a"
  shows "length as \<le> SIZE_MAX"
proof -
  from assms(2) have "set as \<subseteq> {1..SIZE_MAX}" by (auto simp: valid_addr_def)
  then have "card (set as) \<le> card {1..SIZE_MAX}" by (intro card_mono) simp_all
  with assms(1) show ?thesis by (simp add: distinct_card)
qed

lemma cells_length:
  assumes "cells h p cs" "\<forall>a. h a \<noteq> None \<longrightarrow> valid_addr a"
  shows "length cs \<le> SIZE_MAX"
proof -
  from assms(1) have "distinct (map fst cs)" by (rule cells_distinct)
  moreover have "\<forall>a \<in> set (map fst cs). valid_addr a"
    using cells_live[OF assms(1)] assms(2) by auto
  ultimately have "length (map fst cs) \<le> SIZE_MAX" by (rule valid_addrs_length)
  then show ?thesis by simp
qed

lemma shape_length:
  assumes "shape s \<sigma>" "objs s l = Some L"
  shows "length (\<sigma> l) \<le> SIZE_MAX"
proof -
  from assms have "cells (heap s) (head_next_node L) (\<sigma> l)" by (rule shapeD_cells)
  moreover from assms(1) have "\<forall>a. heap s a \<noteq> None \<longrightarrow> valid_addr a"
    by (simp add: shape_def alloc_fresh_def)
  ultimately show ?thesis by (rule cells_length)
qed

lemma incr_no_wrap: "k < SIZE_MAX \<Longrightarrow> incr k = k + 1"
  by (simp add: incr_def)

lemma InsertAfter_shape:
  assumes sh: "shape s \<sigma>" and th: "objs s this = Some L" and tg: "objs s tgt = Some T"
    and split: "\<sigma> tgt = xs @ ys" and al: "allocs s = Some a # rest"
  shows "\<exists>s'. InsertAfter this \<lparr>m_node = Some (pos_after tgt xs)\<rparr> v s
                 = Done \<lparr>m_node = Some (Cell a)\<rparr> s' \<and>
              shape s' (\<sigma>(tgt := xs @ (a, v) # ys)) \<and>
              allocs s' = rest \<and> next_obj s' = next_obj s \<and>
              (\<forall>l. size_of s' l = (if l = this then Some (incr (m_size L)) else size_of s l))"
proof -
  from sh have fr: "alloc_fresh s" and st: "\<And>l. next_obj s \<le> l \<Longrightarrow> objs s l = None"
    by (simp_all add: shape_def)
  from fr al have a: "heap s a = None" "Some a \<notin> set rest" by (simp_all add: alloc_fresh_head)
  from sh tg split have c: "cells (heap s) (head_next_node T) (xs @ ys)"
    using shapeD_cells by fastforce
  show ?thesis
  proof (cases "xs = []")
    case True
    define s' where "s' = s\<lparr>heap := (heap s)(a \<mapsto> \<lparr>node_value = v, next_node = head_next_node T\<rparr>),
              allocs := rest,
              objs := (objs s)(tgt \<mapsto> T\<lparr>head_next_node := Some (Cell a)\<rparr>,
                 this \<mapsto> (if this = tgt then T\<lparr>head_next_node := Some (Cell a)\<rparr> else L)
                            \<lparr>m_size := incr (m_size L)\<rparr>)\<rparr>"
    have run: "InsertAfter this \<lparr>m_node = Some (pos_after tgt xs)\<rparr> v s
                 = Done \<lparr>m_node = Some (Cell a)\<rparr> s'"
      using True InsertAfter_Sentinel[OF tg th al] by (simp add: pos_after_def s'_def)
    have hp: "heap s' = (heap s)(a \<mapsto> \<lparr>node_value = v, next_node = head_next_node T\<rparr>)"
      by (simp add: s'_def)
    from c True have c0: "cells (heap s) (head_next_node T) ys" by simp
    have ys: "cells (heap s') (head_next_node T) ys"
      using c0
    proof (rule cells_frame)
      fix b assume "b \<in> fst ` set ys"
      with c0 have "heap s b \<noteq> None" by (rule cells_live)
      with a show "heap s' b = heap s b" by (auto simp: hp)
    qed
    have "shape s' (\<sigma>(tgt := xs @ (a, v) # ys))"
    proof (rule shape_update[OF sh tg])
      fix l L' assume "objs s' l = Some L'" "l \<noteq> tgt"
      with th show "\<exists>L. objs s l = Some L \<and> head_next_node L' = head_next_node L"
        by (auto simp: s'_def split: if_splits)
    next
      fix b assume "heap s' b \<noteq> heap s b"
      with a show "b \<in> fst ` set (\<sigma> tgt) \<or> heap s b = None"
        by (auto simp: hp split: if_splits)
    next
      fix L' assume "objs s' tgt = Some L'"
      then have "head_next_node L' = Some (Cell a)" by (auto simp: s'_def split: if_splits)
      with ys True show "cells (heap s') (head_next_node L') (xs @ (a, v) # ys)"
        by (simp add: hp)
    next
      fix b assume "b \<in> fst ` set (xs @ (a, v) # ys)"
      with a split True show "b \<in> fst ` set (\<sigma> tgt) \<or> heap s b = None" by auto
    next
      fix l assume "next_obj s' \<le> l"
      with st[of l] th tg show "objs s' l = None" by (auto simp: s'_def)
    next
      show "alloc_fresh s'"
      proof (rule alloc_fresh_tl[OF fr al])
        show "allocs s' = rest" by (simp add: s'_def)
        fix b assume "heap s' b \<noteq> heap s b"
        with a show "Some b \<notin> set rest" by (auto simp: hp split: if_splits)
      next
        fix b assume "heap s' b \<noteq> None"
        then show "heap s b \<noteq> None \<or> Some a = Some b" by (auto simp: hp split: if_splits)
      qed
    qed
    moreover have "allocs s' = rest" "next_obj s' = next_obj s" by (simp_all add: s'_def)
    moreover have "\<forall>l. size_of s' l = (if l = this then Some (incr (m_size L)) else size_of s l)"
      using th tg by (auto simp: size_of_def s'_def)
    ultimately show ?thesis using run by blast
  next
    case False
    define b where "b = fst (last xs)"
    from cells_last_next[OF c False] obtain n where n: "heap s b = Some n"
      "node_value n = snd (last xs)" "cells (heap s) (next_node n) ys"
      unfolding b_def by blast
    from n a have ab: "a \<noteq> b" by auto
    define s' where "s' = s\<lparr>heap := (heap s)(a \<mapsto> \<lparr>node_value = v, next_node = next_node n\<rparr>,
                              b \<mapsto> n\<lparr>next_node := Some (Cell a)\<rparr>),
              allocs := rest,
              objs := (objs s)(this \<mapsto> L\<lparr>m_size := incr (m_size L)\<rparr>)\<rparr>"
    have run: "InsertAfter this \<lparr>m_node = Some (pos_after tgt xs)\<rparr> v s
                 = Done \<lparr>m_node = Some (Cell a)\<rparr> s'"
      using False InsertAfter_Cell[OF n(1) th al ab] by (simp add: pos_after_def s'_def b_def)
    have hp: "heap s' = (heap s)(a \<mapsto> \<lparr>node_value = v, next_node = next_node n\<rparr>,
                              b \<mapsto> n\<lparr>next_node := Some (Cell a)\<rparr>)"
      by (simp add: s'_def)
    from c have d: "distinct (map fst (xs @ ys))" by (rule cells_distinct)
    with False have bn: "b \<notin> fst ` set ys" unfolding b_def by (rule last_notin_suffix)
    have bx: "b \<in> fst ` set (\<sigma> tgt)" using False split by (simp add: b_def)
    have ys: "cells (heap s') (next_node n) ys"
      using n(3)
    proof (rule cells_frame)
      fix e assume e: "e \<in> fst ` set ys"
      with n(3) have "heap s e \<noteq> None" by (rule cells_live)
      with a e bn show "heap s' e = heap s e" by (auto simp: hp)
    qed
    have new: "cells (heap s') (head_next_node T) (xs @ (a, v) # ys)"
    proof (rule cells_relink[OF c False])
      show "heap s (fst (last xs)) = Some n" using n(1) by (simp add: b_def)
      show "heap s' (fst (last xs)) = Some (n\<lparr>next_node := Some (Cell a)\<rparr>)"
        by (simp add: hp b_def)
      show "cells (heap s') (Some (Cell a)) ((a, v) # ys)"
        using ys ab by (simp add: hp)
      fix e assume "e \<in> fst ` set xs" "e \<noteq> fst (last xs)"
      moreover from this c have "heap s e \<noteq> None" using cells_live[OF c, of e] by auto
      ultimately show "heap s' e = heap s e" using a by (auto simp: hp b_def)
    qed
    have "shape s' (\<sigma>(tgt := xs @ (a, v) # ys))"
    proof (rule shape_update[OF sh tg])
      fix l L' assume "objs s' l = Some L'" "l \<noteq> tgt"
      with th show "\<exists>L. objs s l = Some L \<and> head_next_node L' = head_next_node L"
        by (auto simp: s'_def split: if_splits)
    next
      fix e assume "heap s' e \<noteq> heap s e"
      with a bx show "e \<in> fst ` set (\<sigma> tgt) \<or> heap s e = None"
        by (auto simp: hp split: if_splits)
    next
      fix L' assume "objs s' tgt = Some L'"
      with tg th have "head_next_node L' = head_next_node T"
        by (auto simp: s'_def split: if_splits)
      with new show "cells (heap s') (head_next_node L') (xs @ (a, v) # ys)" by simp
    next
      fix e assume "e \<in> fst ` set (xs @ (a, v) # ys)"
      with a split show "e \<in> fst ` set (\<sigma> tgt) \<or> heap s e = None" by auto
    next
      fix l assume "next_obj s' \<le> l"
      with st[of l] th show "objs s' l = None" by (auto simp: s'_def)
    next
      show "alloc_fresh s'"
      proof (rule alloc_fresh_tl[OF fr al])
        show "allocs s' = rest" by (simp add: s'_def)
        fix e assume "heap s' e \<noteq> heap s e"
        then have "e = a \<or> e = b" by (auto simp: hp split: if_splits)
        moreover from fr al n(1) have "Some b \<notin> set rest" by (auto simp: alloc_fresh_def)
        ultimately show "Some e \<notin> set rest" using a by auto
      next
        fix e assume "heap s' e \<noteq> None"
        with n(1) show "heap s e \<noteq> None \<or> Some a = Some e" by (auto simp: hp split: if_splits)
      qed
    qed
    moreover have "allocs s' = rest" "next_obj s' = next_obj s" by (simp_all add: s'_def)
    moreover have "\<forall>l. size_of s' l = (if l = this then Some (incr (m_size L)) else size_of s l)"
      using th by (auto simp: size_of_def s'_def)
    ultimately show ?thesis using run by blast
  qed
qed

lemma EraseAfter_Cell:
  assumes "heap s b = Some n" "next_node n = Some (Cell c)" "heap s c = Some m" "b \<noteq> c"
    "objs s this = Some L"
  shows "EraseAfter this \<lparr>m_node = Some (Cell b)\<rparr> s =
         Done \<lparr>m_node = next_node m\<rparr>
           (s\<lparr>heap := (heap s)(c := None, b \<mapsto> n\<lparr>next_node := next_node m\<rparr>),
              objs := (objs s)(this \<mapsto> L\<lparr>m_size := decr (m_size L)\<rparr>)\<rparr>)"
  using assms
  by (simp add: EraseAfter_def get_next_def delete_Node_def set_next_def decr_size_def)

lemma EraseAfter_Sentinel:
  assumes "objs s tgt = Some T" "head_next_node T = Some (Cell c)" "heap s c = Some m"
    "objs s this = Some L"
  shows "EraseAfter this \<lparr>m_node = Some (Sentinel tgt)\<rparr> s =
         Done \<lparr>m_node = next_node m\<rparr>
           (s\<lparr>heap := (heap s)(c := None),
              objs := (objs s)(tgt \<mapsto> T\<lparr>head_next_node := next_node m\<rparr>,
                 this \<mapsto> (if this = tgt then T\<lparr>head_next_node := next_node m\<rparr> else L)
                            \<lparr>m_size := decr (m_size L)\<rparr>)\<rparr>)"
  using assms
  by (auto simp add: EraseAfter_def get_next_def delete_Node_def set_next_def decr_size_def)

lemma EraseAfter_shape:
  assumes sh: "shape s \<sigma>" and th: "objs s this = Some L" and tg: "objs s tgt = Some T"
    and split: "\<sigma> tgt = xs @ (c, w) # ys"
  shows "\<exists>s'. EraseAfter this \<lparr>m_node = Some (pos_after tgt xs)\<rparr> s
                 = Done \<lparr>m_node = first_of ys\<rparr> s' \<and>
              shape s' (\<sigma>(tgt := xs @ ys)) \<and>
              allocs s' = allocs s \<and> next_obj s' = next_obj s \<and>
              (\<forall>l. size_of s' l = (if l = this then Some (decr (m_size L)) else size_of s l))"
proof -
  from sh have fr: "alloc_fresh s" and st: "\<And>l. next_obj s \<le> l \<Longrightarrow> objs s l = None"
    by (simp_all add: shape_def)
  from sh tg split have c: "cells (heap s) (head_next_node T) (xs @ (c, w) # ys)"
    using shapeD_cells by fastforce
  then have d: "distinct (map fst (xs @ (c, w) # ys))" by (rule cells_distinct)
  from c have "cells (heap s) (Some (Cell c)) ((c, w) # ys)" by (rule cells_drop_prefix)
  then obtain m where m: "heap s c = Some m" "cells (heap s) (next_node m) ys" by auto
  from m(2) have fo: "next_node m = first_of ys" by (rule cells_first)
  from d have cn: "c \<notin> fst ` set ys" "c \<notin> fst ` set xs" by auto
  have cx: "c \<in> fst ` set (\<sigma> tgt)" using split by simp
  show ?thesis
  proof (cases "xs = []")
    case True
    define s' where "s' = s\<lparr>heap := (heap s)(c := None),
              objs := (objs s)(tgt \<mapsto> T\<lparr>head_next_node := next_node m\<rparr>,
                 this \<mapsto> (if this = tgt then T\<lparr>head_next_node := next_node m\<rparr> else L)
                            \<lparr>m_size := decr (m_size L)\<rparr>)\<rparr>"
    from c True have hd: "head_next_node T = Some (Cell c)" by simp
    have run: "EraseAfter this \<lparr>m_node = Some (pos_after tgt xs)\<rparr> s
                 = Done \<lparr>m_node = first_of ys\<rparr> s'"
      using True EraseAfter_Sentinel[OF tg hd m(1) th] fo by (simp add: pos_after_def s'_def)
    have hp: "heap s' = (heap s)(c := None)" by (simp add: s'_def)
    have ys: "cells (heap s') (next_node m) ys"
      using m(2)
    proof (rule cells_frame)
      fix b assume "b \<in> fst ` set ys"
      with cn show "heap s' b = heap s b" by (auto simp: hp)
    qed
    have "shape s' (\<sigma>(tgt := xs @ ys))"
    proof (rule shape_update[OF sh tg])
      fix l L' assume "objs s' l = Some L'" "l \<noteq> tgt"
      with th show "\<exists>L. objs s l = Some L \<and> head_next_node L' = head_next_node L"
        by (auto simp: s'_def split: if_splits)
    next
      fix b assume "heap s' b \<noteq> heap s b"
      with cx show "b \<in> fst ` set (\<sigma> tgt) \<or> heap s b = None"
        by (auto simp: hp split: if_splits)
    next
      fix L' assume "objs s' tgt = Some L'"
      then have "head_next_node L' = next_node m" by (auto simp: s'_def split: if_splits)
      with ys True show "cells (heap s') (head_next_node L') (xs @ ys)" by simp
    next
      fix b assume "b \<in> fst ` set (xs @ ys)"
      with split show "b \<in> fst ` set (\<sigma> tgt) \<or> heap s b = None" by auto
    next
      fix l assume "next_obj s' \<le> l"
      with st[of l] th tg show "objs s' l = None" by (auto simp: s'_def)
    next
      show "alloc_fresh s'"
      proof (rule alloc_fresh_same[OF fr])
        show "allocs s' = allocs s" by (simp add: s'_def)
        fix b assume "heap s' b \<noteq> heap s b"
        with m(1) show "heap s b \<noteq> None" by (auto simp: hp split: if_splits)
      qed
    qed
    moreover have "allocs s' = allocs s" "next_obj s' = next_obj s" by (simp_all add: s'_def)
    moreover have "\<forall>l. size_of s' l = (if l = this then Some (decr (m_size L)) else size_of s l)"
      using th tg by (auto simp: size_of_def s'_def)
    ultimately show ?thesis using run by blast
  next
    case False
    define b where "b = fst (last xs)"
    from cells_last_next[OF c False] obtain n where n: "heap s b = Some n"
      "node_value n = snd (last xs)" "cells (heap s) (next_node n) ((c, w) # ys)"
      unfolding b_def by blast
    from n(3) have nn: "next_node n = Some (Cell c)" by simp
    from False have bx': "b \<in> fst ` set xs" by (simp add: b_def)
    with cn have bc: "b \<noteq> c" by auto
    define s' where "s' = s\<lparr>heap := (heap s)(c := None, b \<mapsto> n\<lparr>next_node := next_node m\<rparr>),
              objs := (objs s)(this \<mapsto> L\<lparr>m_size := decr (m_size L)\<rparr>)\<rparr>"
    have run: "EraseAfter this \<lparr>m_node = Some (pos_after tgt xs)\<rparr> s
                 = Done \<lparr>m_node = first_of ys\<rparr> s'"
      using False EraseAfter_Cell[OF n(1) nn m(1) bc th] fo
      by (simp add: pos_after_def s'_def b_def)
    have hp: "heap s' = (heap s)(c := None, b \<mapsto> n\<lparr>next_node := next_node m\<rparr>)"
      by (simp add: s'_def)
    from False d have bn: "b \<notin> fst ` set ((c, w) # ys)" unfolding b_def
      by (rule last_notin_suffix)
    have bx: "b \<in> fst ` set (\<sigma> tgt)" using bx' split by auto
    have ys: "cells (heap s') (next_node m) ys"
      using m(2)
    proof (rule cells_frame)
      fix e assume e: "e \<in> fst ` set ys"
      with cn bn show "heap s' e = heap s e" by (auto simp: hp)
    qed
    have new: "cells (heap s') (head_next_node T) (xs @ ys)"
    proof (rule cells_relink[OF c False])
      show "heap s (fst (last xs)) = Some n" using n(1) by (simp add: b_def)
      show "heap s' (fst (last xs)) = Some (n\<lparr>next_node := next_node m\<rparr>)"
        by (simp add: hp b_def)
      show "cells (heap s') (next_node m) ys" by (rule ys)
      fix e assume "e \<in> fst ` set xs" "e \<noteq> fst (last xs)"
      with cn show "heap s' e = heap s e" by (auto simp: hp b_def)
    qed
    have "shape s' (\<sigma>(tgt := xs @ ys))"
    proof (rule shape_update[OF sh tg])
      fix l L' assume "objs s' l = Some L'" "l \<noteq> tgt"
      with th show "\<exists>L. objs s l = Some L \<and> head_next_node L' = head_next_node L"
        by (auto simp: s'_def split: if_splits)
    next
      fix e assume "heap s' e \<noteq> heap s e"
      with cx bx show "e \<in> fst ` set (\<sigma> tgt) \<or> heap s e = None"
        by (auto simp: hp split: if_splits)
    next
      fix L' assume "objs s' tgt = Some L'"
      with tg th have "head_next_node L' = head_next_node T"
        by (auto simp: s'_def split: if_splits)
      with new show "cells (heap s') (head_next_node L') (xs @ ys)" by simp
    next
      fix e assume "e \<in> fst ` set (xs @ ys)"
      with split show "e \<in> fst ` set (\<sigma> tgt) \<or> heap s e = None" by auto
    next
      fix l assume "next_obj s' \<le> l"
      with st[of l] th show "objs s' l = None" by (auto simp: s'_def)
    next
      show "alloc_fresh s'"
      proof (rule alloc_fresh_same[OF fr])
        show "allocs s' = allocs s" by (simp add: s'_def)
        fix e assume "heap s' e \<noteq> heap s e"
        with m(1) n(1) show "heap s e \<noteq> None" by (auto simp: hp split: if_splits)
      qed
    qed
    moreover have "allocs s' = allocs s" "next_obj s' = next_obj s" by (simp_all add: s'_def)
    moreover have "\<forall>l. size_of s' l = (if l = this then Some (decr (m_size L)) else size_of s l)"
      using th by (auto simp: size_of_def s'_def)
    ultimately show ?thesis using run by blast
  qed
qed

lemma live_size_of: "live s l \<longleftrightarrow> size_of s l \<noteq> None"
  by (simp add: live_def size_of_def)

lemma sizes_ok_size_of: "sizes_ok s \<sigma> \<longleftrightarrow> (\<forall>l k. size_of s l = Some k \<longrightarrow> k = length (\<sigma> l))"
  by (auto simp: sizes_ok_def size_of_def)

lemma modelsD_size: "models s \<sigma> \<Longrightarrow> objs s l = Some L \<Longrightarrow> m_size L = length (\<sigma> l)"
  by (simp add: models_def sizes_ok_def)

lemma modelsD_cells:
  "models s \<sigma> \<Longrightarrow> objs s l = Some L \<Longrightarrow> cells (heap s) (head_next_node L) (\<sigma> l)"
  by (simp add: models_def shape_def)

lemma models_list_at: "models s \<sigma> \<Longrightarrow> live s l \<Longrightarrow> list_at s l (\<sigma> l)"
  by (auto simp: list_at_def live_def modelsD_size modelsD_cells)

lemma InsertAfter_models:
  assumes m: "models s \<sigma>" and th: "objs s this = Some L"
    and split: "\<sigma> this = xs @ ys" and al: "allocs s = Some a # rest"
  shows "\<exists>s'. InsertAfter this \<lparr>m_node = Some (pos_after this xs)\<rparr> v s
                 = Done \<lparr>m_node = Some (Cell a)\<rparr> s' \<and>
              models s' (\<sigma>(this := xs @ (a, v) # ys)) \<and>
              allocs s' = rest \<and> next_obj s' = next_obj s \<and> (\<forall>l. live s' l = live s l)"
proof -
  from m have sh: "shape s \<sigma>" and sz: "sizes_ok s \<sigma>" by (simp_all add: models_def)
  from InsertAfter_shape[OF sh th th split al, of v] obtain s' where s':
    "InsertAfter this \<lparr>m_node = Some (pos_after this xs)\<rparr> v s = Done \<lparr>m_node = Some (Cell a)\<rparr> s'"
    "shape s' (\<sigma>(this := xs @ (a, v) # ys))" "allocs s' = rest" "next_obj s' = next_obj s"
    "\<forall>l. size_of s' l = (if l = this then Some (incr (m_size L)) else size_of s l)"
    by blast
  from m th split have k: "m_size L = length (xs @ ys)" using modelsD_size by fastforce
  from s'(5) have "size_of s' this = Some (incr (m_size L))" by simp
  then obtain L' where "objs s' this = Some L'" by (auto simp: size_of_def)
  with s'(2) have "length ((\<sigma>(this := xs @ (a, v) # ys)) this) \<le> SIZE_MAX" by (rule shape_length)
  with k have "m_size L < SIZE_MAX" by simp
  then have "incr (m_size L) = m_size L + 1" by (rule incr_no_wrap)
  with k sz s'(5) have "sizes_ok s' (\<sigma>(this := xs @ (a, v) # ys))"
    by (simp add: sizes_ok_size_of)
  moreover from s'(5) th have "\<forall>l. live s' l = live s l"
    by (simp add: live_size_of) (simp add: size_of_def)
  ultimately show ?thesis using s' by (auto simp: models_def)
qed

lemma decr_pos: "0 < k \<Longrightarrow> decr k = k - 1"
  by (simp add: decr_def)

lemma EraseAfter_models:
  assumes m: "models s \<sigma>" and th: "objs s this = Some L"
    and split: "\<sigma> this = xs @ (c, w) # ys"
  shows "\<exists>s'. EraseAfter this \<lparr>m_node = Some (pos_after this xs)\<rparr> s
                 = Done \<lparr>m_node = first_of ys\<rparr> s' \<and>
              models s' (\<sigma>(this := xs @ ys)) \<and>
              allocs s' = allocs s \<and> next_obj s' = next_obj s \<and> (\<forall>l. live s' l = live s l)"
proof -
  from m have sh: "shape s \<sigma>" and sz: "sizes_ok s \<sigma>" by (simp_all add: models_def)
  from EraseAfter_shape[OF sh th th split] obtain s' where s':
    "EraseAfter this \<lparr>m_node = Some (pos_after this xs)\<rparr> s = Done \<lparr>m_node = first_of ys\<rparr> s'"
    "shape s' (\<sigma>(this := xs @ ys))" "allocs s' = allocs s" "next_obj s' = next_obj s"
    "\<forall>l. size_of s' l = (if l = this then Some (decr (m_size L)) else size_of s l)"
    by blast
  from m th split have "m_size L = length (xs @ (c, w) # ys)" using modelsD_size by fastforce
  then have "decr (m_size L) = length (xs @ ys)" by (simp add: decr_pos)
  with sz s'(5) have "sizes_ok s' (\<sigma>(this := xs @ ys))"
    by (simp add: sizes_ok_size_of)
  moreover from s'(5) th have "\<forall>l. live s' l = live s l"
    by (simp add: live_size_of) (simp add: size_of_def)
  ultimately show ?thesis using s' by (auto simp: models_def)
qed

lemma InsertAfter_at_Sentinel:
  "map_result (\<lambda>it. ()) (InsertAfter this \<lparr>m_node = Some (Sentinel this)\<rparr> v s) = PushFront this v s"
  by (auto simp: InsertAfter_def PushFront_def get_next_def new_Node_def set_next_def
      incr_size_def split: option.splits list.splits)

lemma PopFront_as_EraseAfter:
  assumes "objs s this = Some L" "m_size L \<noteq> 0"
  shows "map_result (\<lambda>it. ()) (EraseAfter this \<lparr>m_node = Some (Sentinel this)\<rparr> s) = PopFront this s"
  using assms
  by (auto simp: EraseAfter_def PopFront_def get_next_def delete_Node_def set_next_def
      decr_size_def decr_def split: option.splits ptr.splits)

subsection \<open>An example state\<close>

lemma ex_models: "models ex_state ex_abs"
  by (auto simp add: models_def shape_def sizes_ok_def alloc_fresh_def valid_addr_def SIZE_MAX_def
      ex_state_def ex_abs_def)

subsection \<open>Failed allocations, iterators and the front of a list\<close>

lemma new_Node_fail:
  "allocs s = [] \<or> (\<exists>rest. allocs s = None # rest) \<Longrightarrow>
   \<exists>s'. new_Node v q s = Throw s' \<and> objs s' = objs s \<and> heap s' = heap s \<and> next_obj s' = next_obj s"
  by (auto simp: new_Node_def)

lemma PushFront_fail:
  assumes "objs s this = Some L" "allocs s = [] \<or> (\<exists>rest. allocs s = None # rest)"
  shows "\<exists>s'. PushFront this v s = Throw s' \<and> objs s' = objs s \<and> heap s' = heap s"
  using assms by (auto simp: PushFront_def new_Node_def)

lemma InsertAfter_fail:
  assumes "get_next s p \<noteq> None" "allocs s = [] \<or> (\<exists>rest. allocs s = None # rest)"
  shows "\<exists>s'. InsertAfter this \<lparr>m_node = Some p\<rparr> v s = Throw s' \<and> objs s' = objs s \<and> heap s' = heap s"
  using assms by (auto simp: InsertAfter_def new_Node_def)

lemma list_at_cong: "objs s' = objs s \<Longrightarrow> heap s' = heap s \<Longrightarrow> list_at s' l cs = list_at s l cs"
  by (simp add: list_at_def split: option.splits)

lemma pos_after_valid:
  assumes "models s \<sigma>" "objs s this = Some L" "\<sigma> this = xs @ ys"
  shows "get_next s (pos_after this xs) \<noteq> None"
proof (cases "xs = []")
  case True
  with assms(2) show ?thesis by (simp add: pos_after_def get_next_def)
next
  case False
  from assms have "cells (heap s) (head_next_node L) (xs @ ys)" using modelsD_cells by fastforce
  from cells_last_next[OF this False] False show ?thesis
    by (auto simp: pos_after_def get_next_def)
qed

text \<open>
  Claim C9. A default-constructed iterator references no node. It therefore compares
  equal to \<^verbatim>\<open>end()\<close> and \<^verbatim>\<open>cend()\<close> of every list, and unequal to every before-begin
  iterator and to \<^verbatim>\<open>begin()\<close> of every list that holds its cells (\<open>list_at\<close>) and for
  which \<^verbatim>\<open>IsEmpty()\<close> is false.
\<close>

theorem default_iterator_is_end:
  "m_node BasicIterator_default = None \<and>
   it_eq BasicIterator_default (end_it l) \<and> it_eq BasicIterator_default (cend l) \<and>
   it_eq (end_it l) BasicIterator_default \<and> it_eq (cend l) BasicIterator_default \<and>
   \<not> it_neq BasicIterator_default (end_it l) \<and> \<not> it_neq BasicIterator_default (cend l) \<and>
   it_neq BasicIterator_default (before_begin l) \<and> it_neq BasicIterator_default (cbefore_begin l) \<and>
   \<not> it_eq BasicIterator_default (before_begin l) \<and> \<not> it_eq BasicIterator_default (cbefore_begin l) \<and>
   (list_at s l cs \<longrightarrow> IsEmpty l s = Inr False \<longrightarrow>
      (\<exists>b. begin_it l s = Inr b \<and> cbegin l s = Inr b \<and>
           it_neq BasicIterator_default b \<and> \<not> it_eq BasicIterator_default b))"
proof -
  have "\<exists>b. begin_it l s = Inr b \<and> cbegin l s = Inr b \<and>
           it_neq BasicIterator_default b \<and> \<not> it_eq BasicIterator_default b"
    if a: "list_at s l cs" and e: "IsEmpty l s = Inr False"
  proof -
    from a obtain L where L: "objs s l = Some L" "cells (heap s) (head_next_node L) cs"
      "m_size L = length cs"
      by (auto simp: list_at_def split: option.splits)
    from e L have "cs \<noteq> []" by (auto simp: IsEmpty_def split: if_splits)
    with L(2) have "head_next_node L \<noteq> None" by (cases cs) auto
    with L(1) show ?thesis
      by (auto simp add: begin_it_def cbegin_def it_neq_def it_eq_def BasicIterator_default_def)
  qed
  then show ?thesis
    by (simp add: BasicIterator_default_def it_eq_def it_neq_def end_it_def cend_def
        before_begin_def cbefore_begin_def)
qed

theorem default_iterator_is_end_witness:
  "list_at ex_state 0 (ex_abs 0) \<and> IsEmpty 0 ex_state = Inr False \<and>
   (\<exists>b. begin_it 0 ex_state = Inr b \<and> cbegin 0 ex_state = Inr b \<and>
        it_neq BasicIterator_default b \<and> \<not> it_eq BasicIterator_default b)"
proof -
  have a: "list_at ex_state 0 (ex_abs 0)"
    by (simp add: list_at_def ex_state_def ex_abs_def)
  have e: "IsEmpty 0 ex_state = Inr False"
    by (simp add: IsEmpty_def ex_state_def)
  from default_iterator_is_end[of 0 ex_state "ex_abs 0"] a e show ?thesis by blast
qed

text \<open>
  Claim C6. In every state, \<^verbatim>\<open>InsertAfter(before_begin(), v)\<close> ends as \<^verbatim>\<open>PushFront(v)\<close>
  does, with the same state (the iterator returned apart). On a live list of a
  well-formed state, when the allocation succeeds, both return, the list then holds
  \<open>v\<close> before its former elements, and its size is one more.
\<close>

theorem InsertAfter_before_begin_is_PushFront:
  "map_result (\<lambda>it. ()) (InsertAfter this (before_begin this) v s) = PushFront this v s \<and>
   map_result (\<lambda>it. ()) (InsertAfter this (cbefore_begin this) v s) = PushFront this v s \<and>
   (models s \<sigma> \<longrightarrow> live s this \<longrightarrow> allocs s = Some a # rest \<longrightarrow>
      (\<exists>s'. InsertAfter this (before_begin this) v s = Done \<lparr>m_node = Some (Cell a)\<rparr> s' \<and>
            PushFront this v s = Done () s' \<and>
            models s' (\<sigma>(this := (a, v) # \<sigma> this)) \<and>
            GetSize this s' = Inr (Suc (length (\<sigma> this)))))"
proof -
  have eq: "map_result (\<lambda>it. ()) (InsertAfter this \<lparr>m_node = Some (Sentinel this)\<rparr> v s)
            = PushFront this v s"
    by (rule InsertAfter_at_Sentinel)
  have "\<exists>s'. InsertAfter this (before_begin this) v s = Done \<lparr>m_node = Some (Cell a)\<rparr> s' \<and>
            PushFront this v s = Done () s' \<and>
            models s' (\<sigma>(this := (a, v) # \<sigma> this)) \<and>
            GetSize this s' = Inr (Suc (length (\<sigma> this)))"
    if m: "models s \<sigma>" and l: "live s this" and al: "allocs s = Some a # rest"
  proof -
    from l obtain L where L: "objs s this = Some L" by (auto simp: live_def)
    have sp: "\<sigma> this = [] @ \<sigma> this" by simp
    from InsertAfter_models[OF m L sp al, of v] obtain s' where s':
      "InsertAfter this \<lparr>m_node = Some (Sentinel this)\<rparr> v s = Done \<lparr>m_node = Some (Cell a)\<rparr> s'"
      "models s' (\<sigma>(this := (a, v) # \<sigma> this))" "\<forall>l. live s' l = live s l"
      by (auto simp: pos_after_def)
    from s'(1) eq have "PushFront this v s = Done () s'" by (metis map_result.simps(1))
    moreover from s'(3) l obtain L' where L': "objs s' this = Some L'" by (auto simp: live_def)
    with s'(2) have "m_size L' = Suc (length (\<sigma> this))" using modelsD_size by fastforce
    with L' have "GetSize this s' = Inr (Suc (length (\<sigma> this)))" by (simp add: GetSize_def)
    ultimately show ?thesis using s' by (simp add: before_begin_def)
  qed
  with eq show ?thesis by (simp add: before_begin_def cbefore_begin_def)
qed

theorem InsertAfter_before_begin_is_PushFront_witness:
  "models ex_state ex_abs \<and> live ex_state 0 \<and> allocs ex_state = Some 30 # [Some 31, Some 32, None] \<and>
   (\<exists>s'. InsertAfter 0 (before_begin 0) 9 ex_state = Done \<lparr>m_node = Some (Cell 30)\<rparr> s' \<and>
         PushFront 0 9 ex_state = Done () s' \<and>
         models s' (ex_abs(0 := (30, 9) # ex_abs 0)) \<and>
         GetSize 0 s' = Inr (Suc (length (ex_abs 0))))"
proof -
  have l: "live ex_state 0" by (simp add: live_def ex_state_def)
  have al: "allocs ex_state = Some 30 # [Some 31, Some 32, None]" by (simp add: ex_state_def)
  from InsertAfter_before_begin_is_PushFront[of 0 9 ex_state ex_abs 30 "[Some 31, Some 32, None]"]
    ex_models l al
  show ?thesis by blast
qed

text \<open>
  Claim C7. For a live list of a well-formed state and the position after any prefix
  \<open>xs\<close> of its cells: when the allocation fails, \<^verbatim>\<open>PushFront\<close> and \<^verbatim>\<open>InsertAfter\<close> leave by
  the exception, and list objects and heap are what they were, so every list holds the
  cells and the size it had; when the allocation succeeds, both return with the new
  element in place.
\<close>

theorem allocation_failure_keeps_list:
  assumes "models s \<sigma>" and "live s this" and "\<sigma> this = xs @ ys"
  shows "(allocs s = [] \<or> (\<exists>rest. allocs s = None # rest) \<longrightarrow>
           (\<exists>s'. PushFront this v s = Throw s' \<and> objs s' = objs s \<and> heap s' = heap s \<and>
                 (\<forall>l. list_at s' l (\<sigma> l) = list_at s l (\<sigma> l))) \<and>
           (\<exists>s'. InsertAfter this \<lparr>m_node = Some (pos_after this xs)\<rparr> v s = Throw s' \<and>
                 objs s' = objs s \<and> heap s' = heap s \<and>
                 (\<forall>l. list_at s' l (\<sigma> l) = list_at s l (\<sigma> l)))) \<and>
         (\<forall>a rest. allocs s = Some a # rest \<longrightarrow>
           (\<exists>s'. PushFront this v s = Done () s' \<and> models s' (\<sigma>(this := (a, v) # \<sigma> this))) \<and>
           (\<exists>s' it. InsertAfter this \<lparr>m_node = Some (pos_after this xs)\<rparr> v s = Done it s' \<and>
                 models s' (\<sigma>(this := xs @ (a, v) # ys))))"
proof -
  from assms(2) obtain L where L: "objs s this = Some L" by (auto simp: live_def)
  have fail: "(\<exists>s'. PushFront this v s = Throw s' \<and> objs s' = objs s \<and> heap s' = heap s \<and>
                 (\<forall>l. list_at s' l (\<sigma> l) = list_at s l (\<sigma> l))) \<and>
           (\<exists>s'. InsertAfter this \<lparr>m_node = Some (pos_after this xs)\<rparr> v s = Throw s' \<and>
                 objs s' = objs s \<and> heap s' = heap s \<and>
                 (\<forall>l. list_at s' l (\<sigma> l) = list_at s l (\<sigma> l)))"
    if f: "allocs s = [] \<or> (\<exists>rest. allocs s = None # rest)"
  proof -
    from PushFront_fail[OF L f, of v] obtain s1 where s1:
      "PushFront this v s = Throw s1" "objs s1 = objs s" "heap s1 = heap s" by blast
    from s1(2,3) have l1: "\<forall>l. list_at s1 l (\<sigma> l) = list_at s l (\<sigma> l)"
      using list_at_cong by blast
    from pos_after_valid[OF assms(1) L assms(3)] have "get_next s (pos_after this xs) \<noteq> None" .
    from InsertAfter_fail[OF this f, of this v] obtain s2 where s2:
      "InsertAfter this \<lparr>m_node = Some (pos_after this xs)\<rparr> v s = Throw s2"
      "objs s2 = objs s" "heap s2 = heap s" by blast
    from s2(2,3) have l2: "\<forall>l. list_at s2 l (\<sigma> l) = list_at s l (\<sigma> l)"
      using list_at_cong by blast
    from s1 l1 s2 l2 show ?thesis by blast
  qed
  have ok: "(\<exists>s'. PushFront this v s = Done () s' \<and> models s' (\<sigma>(this := (a, v) # \<sigma> this))) \<and>
           (\<exists>s' it. InsertAfter this \<lparr>m_node = Some (pos_after this xs)\<rparr> v s = Done it s' \<and>
                 models s' (\<sigma>(this := xs @ (a, v) # ys)))"
    if al: "allocs s = Some a # rest" for a rest
  proof -
    have sp: "\<sigma> this = [] @ \<sigma> this" by simp
    from InsertAfter_models[OF assms(1) L sp al, of v] obtain s1 where s1:
      "InsertAfter this \<lparr>m_node = Some (Sentinel this)\<rparr> v s = Done \<lparr>m_node = Some (Cell a)\<rparr> s1"
      "models s1 (\<sigma>(this := (a, v) # \<sigma> this))"
      by (auto simp: pos_after_def)
    from s1(1) InsertAfter_at_Sentinel[of this v s] have "PushFront this v s = Done () s1"
      by (metis map_result.simps(1))
    moreover from InsertAfter_models[OF assms(1) L assms(3) al, of v]
    have "\<exists>s' it. InsertAfter this \<lparr>m_node = Some (pos_after this xs)\<rparr> v s = Done it s' \<and>
                 models s' (\<sigma>(this := xs @ (a, v) # ys))" by blast
    ultimately show ?thesis using s1(2) by blast
  qed
  from fail ok show ?thesis by blast
qed

lemma ex_full_models: "models ex_full ex_abs"
  by (auto simp add: models_def shape_def sizes_ok_def alloc_fresh_def valid_addr_def SIZE_MAX_def
      ex_full_def ex_state_def ex_abs_def)

theorem allocation_failure_keeps_list_witness:
  "models ex_full ex_abs \<and> live ex_full 0 \<and> ex_abs 0 = [(10, 1)] @ [(11, 2), (12, 3)] \<and>
   (\<exists>rest. allocs ex_full = None # rest) \<and>
   (\<exists>s'. PushFront 0 9 ex_full = Throw s' \<and> objs s' = objs ex_full \<and> heap s' = heap ex_full \<and>
         (\<forall>l. list_at s' l (ex_abs l) = list_at ex_full l (ex_abs l))) \<and>
   (\<exists>s'. InsertAfter 0 \<lparr>m_node = Some (pos_after 0 [(10, 1::int)])\<rparr> 9 ex_full = Throw s' \<and>
         objs s' = objs ex_full \<and> heap s' = heap ex_full \<and>
         (\<forall>l. list_at s' l (ex_abs l) = list_at ex_full l (ex_abs l))) \<and>
   models ex_state ex_abs \<and> live ex_state 0 \<and>
   allocs ex_state = Some 30 # [Some 31, Some 32, None] \<and>
   (\<exists>s'. PushFront 0 9 ex_state = Done () s' \<and> models s' (ex_abs(0 := (30, 9) # ex_abs 0))) \<and>
   (\<exists>s' it. InsertAfter 0 \<lparr>m_node = Some (pos_after 0 [(10, 1::int)])\<rparr> 9 ex_state = Done it s' \<and>
         models s' (ex_abs(0 := [(10, 1)] @ (30, 9) # [(11, 2), (12, 3)])))"
proof -
  have sp: "ex_abs 0 = [(10, 1)] @ [(11, 2), (12, 3)]" by (simp add: ex_abs_def)
  have l1: "live ex_full 0" by (simp add: live_def ex_full_def ex_state_def)
  have l2: "live ex_state 0" by (simp add: live_def ex_state_def)
  have a1: "\<exists>rest. allocs ex_full = None # rest" by (simp add: ex_full_def)
  have a2: "allocs ex_state = Some 30 # [Some 31, Some 32, None]" by (simp add: ex_state_def)
  note f = allocation_failure_keeps_list[OF ex_full_models l1 sp, of 9, THEN conjunct1, rule_format]
  note g = allocation_failure_keeps_list[OF ex_models l2 sp, of 9, THEN conjunct2, rule_format, OF a2]
  from a1 have "allocs ex_full = [] \<or> (\<exists>rest. allocs ex_full = None # rest)" by (rule disjI2)
  note f' = f[OF this]
  show ?thesis
    by (intro conjI ex_full_models l1 sp a1 f'[THEN conjunct1] f'[THEN conjunct2]
        ex_models l2 a2 g[THEN conjunct1] g[THEN conjunct2])
qed

text \<open>
  Claim C10. On a live, non-empty list of a well-formed state,
  \<^verbatim>\<open>EraseAfter(before_begin())\<close> and \<^verbatim>\<open>PopFront()\<close> return with the same state: the first
  element is gone, the size is one less, and the iterator returned references the new
  first element, which is \<^verbatim>\<open>end()\<close> when the list had one element.
\<close>

theorem EraseAfter_before_begin_is_PopFront:
  assumes "models s \<sigma>" and "live s this" and "\<sigma> this \<noteq> []"
  shows "\<exists>s'. EraseAfter this (before_begin this) s = Done \<lparr>m_node = first_of (tl (\<sigma> this))\<rparr> s' \<and>
              PopFront this s = Done () s' \<and>
              models s' (\<sigma>(this := tl (\<sigma> this))) \<and>
              GetSize this s' = Inr (length (\<sigma> this) - 1) \<and>
              begin_it this s' = Inr \<lparr>m_node = first_of (tl (\<sigma> this))\<rparr> \<and>
              (length (\<sigma> this) = 1 \<longrightarrow> \<lparr>m_node = first_of (tl (\<sigma> this))\<rparr> = end_it this)"
proof -
  from assms(2) obtain L where L: "objs s this = Some L" by (auto simp: live_def)
  from assms(3) obtain c w ys where sp: "\<sigma> this = [] @ (c, w) # ys" by (cases "\<sigma> this") auto
  from assms(1) L sp have sz: "m_size L \<noteq> 0" using modelsD_size by fastforce
  from EraseAfter_models[OF assms(1) L sp] obtain s' where s':
    "EraseAfter this \<lparr>m_node = Some (Sentinel this)\<rparr> s = Done \<lparr>m_node = first_of ys\<rparr> s'"
    "models s' (\<sigma>(this := ys))" "\<forall>l. live s' l = live s l"
    by (auto simp: pos_after_def)
  from s'(1) PopFront_as_EraseAfter[OF L sz] have pf: "PopFront this s = Done () s'"
    by (metis map_result.simps(1))
  from s'(3) assms(2) obtain L' where L': "objs s' this = Some L'" by (auto simp: live_def)
  with s'(2) have "m_size L' = length ys" "cells (heap s') (head_next_node L') ys"
    using modelsD_size modelsD_cells by fastforce+
  then have "m_size L' = length ys" "head_next_node L' = first_of ys"
    using cells_first by blast+
  with L' have "GetSize this s' = Inr (length ys)" "begin_it this s' = Inr \<lparr>m_node = first_of ys\<rparr>"
    by (simp_all add: GetSize_def begin_it_def cbegin_def)
  moreover have "length (\<sigma> this) = 1 \<longrightarrow> \<lparr>m_node = first_of ys\<rparr> = end_it this"
    using sp by (simp add: first_of_def end_it_def)
  ultimately show ?thesis using s' pf sp by (simp add: before_begin_def)
qed

theorem EraseAfter_before_begin_is_PopFront_witness:
  "models ex_state ex_abs \<and> live ex_state 0 \<and> ex_abs 0 \<noteq> [] \<and>
   (\<exists>s'. EraseAfter 0 (before_begin 0) ex_state = Done \<lparr>m_node = Some (Cell 11)\<rparr> s' \<and>
         PopFront 0 ex_state = Done () s' \<and>
         models s' (ex_abs(0 := [(11, 2), (12, 3)])) \<and>
         GetSize 0 s' = Inr 2 \<and>
         begin_it 0 s' = Inr \<lparr>m_node = Some (Cell 11)\<rparr>)"
proof -
  have l: "live ex_state 0" by (simp add: live_def ex_state_def)
  have n: "ex_abs 0 \<noteq> []" by (simp add: ex_abs_def)
  have t: "tl (ex_abs 0) = [(11, 2), (12, 3)]" "length (ex_abs 0) - 1 = 2"
    by (simp_all add: ex_abs_def)
  have f: "first_of [(11, 2::int), (12, 3)] = Some (Cell 11)"
    by (simp add: first_of_def)
  from EraseAfter_before_begin_is_PopFront[OF ex_models l n] obtain s' where
    "EraseAfter 0 (before_begin 0) ex_state = Done \<lparr>m_node = first_of (tl (ex_abs 0))\<rparr> s'"
    "PopFront 0 ex_state = Done () s'"
    "models s' (ex_abs(0 := tl (ex_abs 0)))"
    "GetSize 0 s' = Inr (length (ex_abs 0) - 1)"
    "begin_it 0 s' = Inr \<lparr>m_node = first_of (tl (ex_abs 0))\<rparr>"
    by blast
  then have "EraseAfter 0 (before_begin 0) ex_state = Done \<lparr>m_node = Some (Cell 11)\<rparr> s' \<and>
         PopFront 0 ex_state = Done () s' \<and>
         models s' (ex_abs(0 := [(11, 2), (12, 3)])) \<and>
         GetSize 0 s' = Inr 2 \<and>
         begin_it 0 s' = Inr \<lparr>m_node = Some (Cell 11)\<rparr>"
    unfolding t f by (intro conjI)
  then have "\<exists>s'. EraseAfter 0 (before_begin 0) ex_state = Done \<lparr>m_node = Some (Cell 11)\<rparr> s' \<and>
         PopFront 0 ex_state = Done () s' \<and>
         models s' (ex_abs(0 := [(11, 2), (12, 3)])) \<and>
         GetSize 0 s' = Inr 2 \<and>
         begin_it 0 s' = Inr \<lparr>m_node = Some (Cell 11)\<rparr>" ..
  with l n ex_models show ?thesis by (intro conjI)
qed

subsection \<open>Clear\<close>

lemma shape_same_abs: "shape s \<sigma> \<Longrightarrow> \<sigma> l = cs \<Longrightarrow> shape s (\<sigma>(l := cs))"
  by (simp add: fun_upd_idem)

lemma size_of_live:
  "\<forall>l. size_of s' l = size_of s l \<Longrightarrow> objs s l = Some L \<Longrightarrow> \<exists>L'. objs s' l = Some L'"
proof -
  assume a: "\<forall>l. size_of s' l = size_of s l" and b: "objs s l = Some L"
  from a have "size_of s' l = size_of s l" ..
  with b show ?thesis by (cases "objs s' l") (simp_all add: size_of_def)
qed

lemma Clear_loop_step:
  assumes "objs s this = Some L" "head_next_node L = Some (Cell c)" "heap s c = Some m"
  shows "Clear_loop this s =
         Clear_loop this (s\<lparr>heap := (heap s)(c := None),
                           objs := (objs s)(this \<mapsto> L\<lparr>head_next_node := next_node m\<rparr>)\<rparr>)"
  using assms
  by (subst Clear_loop.simps) (simp add: get_next_def delete_Node_def set_next_def)

lemma Clear_loop_stop:
  assumes "objs s this = Some L" "head_next_node L = None"
  shows "Clear_loop this s = Some (Done () s)"
  using assms by (subst Clear_loop.simps) simp

lemma unlink_head_shape:
  assumes sh: "shape s \<sigma>" and th: "objs s this = Some L" and split: "\<sigma> this = (c, w) # ys"
    and m: "heap s c = Some m"
    and s': "s' = s\<lparr>heap := (heap s)(c := None),
                    objs := (objs s)(this \<mapsto> L\<lparr>head_next_node := next_node m\<rparr>)\<rparr>"
  shows "shape s' (\<sigma>(this := ys))"
proof -
  from sh have fr: "alloc_fresh s" and st: "\<And>l. next_obj s \<le> l \<Longrightarrow> objs s l = None"
    by (simp_all add: shape_def)
  from sh th split have c: "cells (heap s) (head_next_node L) ((c, w) # ys)"
    using shapeD_cells by fastforce
  with m have ys: "cells (heap s) (next_node m) ys" by simp
  from c have "distinct (map fst ((c, w) # ys))" by (rule cells_distinct)
  then have cn: "c \<notin> fst ` set ys" by simp
  have hp: "heap s' = (heap s)(c := None)" by (simp add: s')
  have ys': "cells (heap s') (next_node m) ys"
    using ys
  proof (rule cells_frame)
    fix b assume "b \<in> fst ` set ys"
    with cn show "heap s' b = heap s b" by (auto simp: hp)
  qed
  show ?thesis
  proof (rule shape_update[OF sh th])
    fix l L' assume "objs s' l = Some L'" "l \<noteq> this"
    then show "\<exists>L. objs s l = Some L \<and> head_next_node L' = head_next_node L"
      by (auto simp: s' split: if_splits)
  next
    fix b assume "heap s' b \<noteq> heap s b"
    with split show "b \<in> fst ` set (\<sigma> this) \<or> heap s b = None"
      by (auto simp: hp split: if_splits)
  next
    fix L' assume "objs s' this = Some L'"
    then have "head_next_node L' = next_node m" by (auto simp: s')
    with ys' show "cells (heap s') (head_next_node L') ys" by simp
  next
    fix b assume "b \<in> fst ` set ys"
    with split show "b \<in> fst ` set (\<sigma> this) \<or> heap s b = None" by auto
  next
    fix l assume "next_obj s' \<le> l"
    with st[of l] th show "objs s' l = None" by (auto simp: s')
  next
    show "alloc_fresh s'"
    proof (rule alloc_fresh_same[OF fr])
      show "allocs s' = allocs s" by (simp add: s')
      fix b assume "heap s' b \<noteq> heap s b"
      with m show "heap s b \<noteq> None" by (auto simp: hp split: if_splits)
    qed
  qed
qed

lemma Clear_loop_shape:
  assumes "shape s \<sigma>" "objs s this = Some L" "\<sigma> this = cs" "\<sigma>' = \<sigma>(this := [])"
  shows "\<exists>s'. Clear_loop this s = Some (Done () s') \<and> shape s' \<sigma>' \<and>
              allocs s' = allocs s \<and> next_obj s' = next_obj s \<and>
              (\<forall>l. size_of s' l = size_of s l) \<and>
              (\<forall>l. l \<noteq> this \<longrightarrow> objs s' l = objs s l) \<and>
              (\<forall>b. b \<notin> fst ` set cs \<longrightarrow> heap s' b = heap s b) \<and>
              (\<forall>b. b \<in> fst ` set cs \<longrightarrow> heap s' b = None)"
  using assms
proof (induction cs arbitrary: s \<sigma> L)
  case Nil
  from Nil(1,2,3) have "cells (heap s) (head_next_node L) []" using shapeD_cells by fastforce
  then have "head_next_node L = None" by simp
  with Nil.prems(2) have "Clear_loop this s = Some (Done () s)" by (rule Clear_loop_stop)
  moreover from Nil.prems(1,3) have "shape s \<sigma>'" unfolding Nil.prems(4) by (rule shape_same_abs)
  ultimately show ?case by (intro exI[of _ s]) simp
next
  case (Cons x ys)
  obtain c w where x: "x = (c, w)" by (cases x)
  from Cons.prems x have c: "cells (heap s) (head_next_node L) ((c, w) # ys)"
    using shapeD_cells by fastforce
  then obtain m where m: "head_next_node L = Some (Cell c)" "heap s c = Some m" by auto
  from c have "distinct (map fst ((c, w) # ys))" by (rule cells_distinct)
  then have cn: "c \<notin> fst ` set ys" by simp
  define s1 where "s1 = s\<lparr>heap := (heap s)(c := None),
                    objs := (objs s)(this \<mapsto> L\<lparr>head_next_node := next_node m\<rparr>)\<rparr>"
  from Cons.prems(3) x have sp: "\<sigma> this = (c, w) # ys" by simp
  have sh1: "shape s1 (\<sigma>(this := ys))"
    using Cons.prems(1,2) sp m(2) s1_def by (rule unlink_head_shape)
  have o1: "objs s1 this = Some (L\<lparr>head_next_node := next_node m\<rparr>)" by (simp add: s1_def)
  have a1: "(\<sigma>(this := ys)) this = ys" by simp
  have a2: "\<sigma>' = (\<sigma>(this := ys))(this := [])" by (simp only: Cons.prems(4) fun_upd_upd)
  from Cons.IH[OF sh1 o1 a1 a2] obtain s' where s':
    "Clear_loop this s1 = Some (Done () s')" "shape s' \<sigma>'"
    "allocs s' = allocs s1" "next_obj s' = next_obj s1"
    "\<forall>l. size_of s' l = size_of s1 l"
    "\<forall>l. l \<noteq> this \<longrightarrow> objs s' l = objs s1 l"
    "\<forall>b. b \<notin> fst ` set ys \<longrightarrow> heap s' b = heap s1 b"
    "\<forall>b. b \<in> fst ` set ys \<longrightarrow> heap s' b = None"
    by auto
  from Clear_loop_step[OF Cons.prems(2) m] s'(1)
  have "Clear_loop this s = Some (Done () s')" by (simp add: s1_def)
  moreover have "allocs s1 = allocs s" "next_obj s1 = next_obj s" by (simp_all add: s1_def)
  moreover have "\<forall>l. size_of s1 l = size_of s l"
    using Cons.prems(2) by (simp add: size_of_def s1_def)
  moreover have "\<forall>l. l \<noteq> this \<longrightarrow> objs s1 l = objs s l" by (simp add: s1_def)
  moreover have "\<forall>b. b \<notin> fst ` set (x # ys) \<longrightarrow> heap s' b = heap s b"
    using s'(7) x by (auto simp: s1_def)
  moreover have "\<forall>b. b \<in> fst ` set (x # ys) \<longrightarrow> heap s' b = None"
  proof (intro allI impI)
    fix b assume "b \<in> fst ` set (x # ys)"
    then consider "b = c" | "b \<in> fst ` set ys" using x by auto
    then show "heap s' b = None"
    proof cases
      case 1
      with cn s'(7) show ?thesis by (simp add: s1_def)
    next
      case 2
      with s'(8) show ?thesis by simp
    qed
  qed
  ultimately show ?case using s' by simp
qed

lemma set_size_live: "objs s l = Some L \<Longrightarrow> set_size l k s = Some (s\<lparr>objs := (objs s)(l \<mapsto> L\<lparr>m_size := k\<rparr>)\<rparr>)"
  by (simp add: set_size_def)

lemma shape_resize:
  assumes "shape s \<sigma>" "objs s l = Some L"
  shows "shape (s\<lparr>objs := (objs s)(l \<mapsto> L\<lparr>m_size := k\<rparr>)\<rparr>) \<sigma>"
  using assms unfolding shape_def alloc_fresh_def by (auto split: if_splits)

lemma Clear_shape:
  assumes sh: "shape s \<sigma>" and th: "objs s this = Some L"
  shows "\<exists>s' L'. Clear this s = Some (Done () s') \<and> shape s' (\<sigma>(this := [])) \<and>
              objs s' this = Some L' \<and> head_next_node L' = None \<and> m_size L' = 0 \<and>
              allocs s' = allocs s \<and> next_obj s' = next_obj s \<and>
              (\<forall>l. l \<noteq> this \<longrightarrow> objs s' l = objs s l) \<and>
              (\<forall>b. b \<notin> fst ` set (\<sigma> this) \<longrightarrow> heap s' b = heap s b) \<and>
              (\<forall>b. b \<in> fst ` set (\<sigma> this) \<longrightarrow> heap s' b = None)"
proof -
  from Clear_loop_shape[OF sh th refl refl] obtain s1 where s1:
    "Clear_loop this s = Some (Done () s1)" "shape s1 (\<sigma>(this := []))"
    "allocs s1 = allocs s" "next_obj s1 = next_obj s"
    "\<forall>l. size_of s1 l = size_of s l"
    "\<forall>l. l \<noteq> this \<longrightarrow> objs s1 l = objs s l"
    "\<forall>b. b \<notin> fst ` set (\<sigma> this) \<longrightarrow> heap s1 b = heap s b"
    "\<forall>b. b \<in> fst ` set (\<sigma> this) \<longrightarrow> heap s1 b = None"
    by blast
  from s1(5) th obtain L1 where L1: "objs s1 this = Some L1"
    using size_of_live by blast
  from s1(2) L1 have "cells (heap s1) (head_next_node L1) []" using shapeD_cells by fastforce
  then have h1: "head_next_node L1 = None" by simp
  define s' where "s' = s1\<lparr>objs := (objs s1)(this \<mapsto> L1\<lparr>m_size := 0\<rparr>)\<rparr>"
  from s1(1) L1 have "Clear this s = Some (Done () s')"
    by (simp add: Clear_def set_size_live s'_def)
  moreover from s1(2) L1 have "shape s' (\<sigma>(this := []))" unfolding s'_def by (rule shape_resize)
  moreover have "objs s' this = Some (L1\<lparr>m_size := 0\<rparr>)" by (simp add: s'_def)
  moreover have "allocs s' = allocs s" "next_obj s' = next_obj s" "heap s' = heap s1"
    using s1 by (simp_all add: s'_def)
  moreover have "\<forall>l. l \<noteq> this \<longrightarrow> objs s' l = objs s l" using s1(6) by (simp add: s'_def)
  ultimately show ?thesis using s1(7,8) h1 by simp
qed

lemma models_shape: "models s \<sigma> \<Longrightarrow> shape s \<sigma>"
  by (simp add: models_def)

text \<open>
  Claim C8. On a live list whose cells are well-formed, whatever its stored size,
  \<^verbatim>\<open>Clear()\<close> returns: it neither throws nor stops at a fault nor runs for ever.
  Afterwards \<^verbatim>\<open>IsEmpty()\<close> is true, \<^verbatim>\<open>GetSize()\<close> is 0, \<^verbatim>\<open>begin()\<close> is \<^verbatim>\<open>end()\<close>, so no node
  is reachable from the sentinel, and every node the list had is freed.
\<close>

theorem Clear_leaves_list_empty:
  assumes "shape s \<sigma>" and "live s this"
  shows "\<exists>s'. Clear this s = Some (Done () s') \<and>
              IsEmpty this s' = Inr True \<and> GetSize this s' = Inr 0 \<and>
              cbegin this s' = Inr (cend this) \<and> list_at s' this [] \<and>
              shape s' (\<sigma>(this := [])) \<and>
              (\<forall>b. b \<in> fst ` set (\<sigma> this) \<longrightarrow> heap s' b = None)"
proof -
  from assms(2) obtain L where L: "objs s this = Some L" by (auto simp: live_def)
  from Clear_shape[OF assms(1) L] obtain s' L' where s':
    "Clear this s = Some (Done () s')" "shape s' (\<sigma>(this := []))"
    "objs s' this = Some L'" "head_next_node L' = None" "m_size L' = 0"
    "\<forall>b. b \<in> fst ` set (\<sigma> this) \<longrightarrow> heap s' b = None"
    by blast
  from s'(3,4,5) have "IsEmpty this s' = Inr True" "GetSize this s' = Inr 0"
    "cbegin this s' = Inr (cend this)" "list_at s' this []"
    by (simp_all add: IsEmpty_def GetSize_def cbegin_def cend_def list_at_def)
  with s'(1,2,6) show ?thesis by blast
qed

theorem Clear_leaves_list_empty_witness:
  "shape ex_state ex_abs \<and> live ex_state 1 \<and>
   (\<exists>s'. Clear 1 ex_state = Some (Done () s') \<and>
         IsEmpty 1 s' = Inr True \<and> GetSize 1 s' = Inr 0 \<and>
         cbegin 1 s' = Inr (cend 1) \<and> list_at s' 1 [] \<and>
         shape s' (ex_abs(1 := [])) \<and>
         (\<forall>b. b \<in> fst ` set (ex_abs 1) \<longrightarrow> heap s' b = None))"
proof -
  have l: "live ex_state 1" by (simp add: live_def ex_state_def)
  have sh: "shape ex_state ex_abs" using ex_models by (rule models_shape)
  from sh l Clear_leaves_list_empty[OF sh l] show ?thesis by (intro conjI)
qed

subsection \<open>Comparing two lists\<close>

lemma it_deref_Cell: "heap s a = Some n \<Longrightarrow> it_deref \<lparr>m_node = Some (Cell a)\<rparr> s = Inr (node_value n)"
  by (simp add: it_deref_def)

lemma it_incr_Cell:
  "heap s a = Some n \<Longrightarrow> it_incr \<lparr>m_node = Some (Cell a)\<rparr> s = Inr \<lparr>m_node = next_node n\<rparr>"
  by (simp add: it_incr_def get_next_def)

lemma std_equal_by_cells:
  "cells (heap s) p xs \<Longrightarrow> cells (heap s) q ys \<Longrightarrow>
   std_equal_by eq \<lparr>m_node = p\<rparr> \<lparr>m_node = None\<rparr> \<lparr>m_node = q\<rparr> \<lparr>m_node = None\<rparr> s
   = Some (Inr (list_all2 eq (contents xs) (contents ys)))"
proof (induction xs arbitrary: p q ys)
  case Nil
  then have "p = None" by simp
  moreover from Nil(2) have "(q = None) = (ys = [])" by (cases ys) auto
  ultimately show ?case
    by (subst std_equal_by.simps) (auto simp: it_neq_def it_eq_def contents_def)
next
  case (Cons x xs)
  obtain a v where x: "x = (a, v)" by (cases x)
  from Cons.prems(1) x obtain n where n: "p = Some (Cell a)" "heap s a = Some n"
    "node_value n = v" "cells (heap s) (next_node n) xs" by auto
  show ?case
  proof (cases ys)
    case Nil
    with Cons.prems(2) have "q = None" by simp
    with n Nil x show ?thesis
      by (subst std_equal_by.simps) (simp add: it_neq_def it_eq_def contents_def)
  next
    case (Cons y ys')
    obtain b w where y: "y = (b, w)" by (cases y)
    from Cons.prems(2) Cons y obtain m where m: "q = Some (Cell b)" "heap s b = Some m"
      "node_value m = w" "cells (heap s) (next_node m) ys'" by auto
    show ?thesis
    proof (cases "eq v w")
      case True
      from Cons.IH[OF n(4) m(4)]
      have "std_equal_by eq \<lparr>m_node = next_node n\<rparr> \<lparr>m_node = None\<rparr> \<lparr>m_node = next_node m\<rparr>
              \<lparr>m_node = None\<rparr> s = Some (Inr (list_all2 eq (contents xs) (contents ys')))" .
      with True n m x y Cons show ?thesis
        by (subst std_equal_by.simps)
           (simp add: it_neq_def it_deref_Cell it_incr_Cell contents_def)
    next
      case False
      with n m x y Cons show ?thesis
        by (subst std_equal_by.simps) (simp add: it_neq_def it_deref_Cell contents_def)
    qed
  qed
qed

lemma std_equal_cells:
  "cells (heap s) p xs \<Longrightarrow> cells (heap s) q ys \<Longrightarrow>
   std_equal \<lparr>m_node = p\<rparr> \<lparr>m_node = None\<rparr> \<lparr>m_node = q\<rparr> \<lparr>m_node = None\<rparr> s
   = Some (Inr (contents xs = contents ys))"
  unfolding std_equal_def by (simp add: std_equal_by_cells list_all2_eq)

lemma std_lexicographical_compare_cells:
  "cells (heap s) p xs \<Longrightarrow> cells (heap s) q ys \<Longrightarrow>
   std_lexicographical_compare \<lparr>m_node = p\<rparr> \<lparr>m_node = None\<rparr> \<lparr>m_node = q\<rparr> \<lparr>m_node = None\<rparr> s
   = Some (Inr ((contents xs, contents ys) \<in> lexord {(u, v). u < v}))"
proof (induction xs arbitrary: p q ys)
  case Nil
  then have "p = None" by simp
  moreover from Nil(2) have "(q = None) = (ys = [])" by (cases ys) auto
  ultimately show ?case
    by (subst std_lexicographical_compare.simps)
       (cases ys; auto simp: it_neq_def it_eq_def contents_def)
next
  case (Cons x xs)
  obtain a v where x: "x = (a, v)" by (cases x)
  from Cons.prems(1) x obtain n where n: "p = Some (Cell a)" "heap s a = Some n"
    "node_value n = v" "cells (heap s) (next_node n) xs" by auto
  show ?case
  proof (cases ys)
    case Nil
    with Cons.prems(2) have "q = None" by simp
    with n Nil x show ?thesis
      by (subst std_lexicographical_compare.simps) (simp add: it_neq_def it_eq_def contents_def)
  next
    case (Cons y ys')
    obtain b w where y: "y = (b, w)" by (cases y)
    from Cons.prems(2) Cons y obtain m where m: "q = Some (Cell b)" "heap s b = Some m"
      "node_value m = w" "cells (heap s) (next_node m) ys'" by auto
    consider "v < w" | "w < v" | "v = w" by (meson linorder_less_linear)
    then show ?thesis
    proof cases
      case 1
      with n m x y Cons show ?thesis
        by (subst std_lexicographical_compare.simps)
           (simp add: it_neq_def it_deref_Cell contents_def)
    next
      case 2
      with n m x y Cons show ?thesis
        by (subst std_lexicographical_compare.simps)
           (auto simp add: it_neq_def it_deref_Cell contents_def)
    next
      case 3
      from Cons.IH[OF n(4) m(4)]
      have "std_lexicographical_compare \<lparr>m_node = next_node n\<rparr> \<lparr>m_node = None\<rparr>
              \<lparr>m_node = next_node m\<rparr> \<lparr>m_node = None\<rparr> s
            = Some (Inr ((contents xs, contents ys') \<in> lexord {(u, v). u < v}))" .
      with 3 n m x y Cons show ?thesis
        by (subst std_lexicographical_compare.simps)
           (simp add: it_neq_def it_deref_Cell it_incr_Cell contents_def)
    qed
  qed
qed

lemma list_atD:
  "list_at s l cs \<Longrightarrow> \<exists>L. objs s l = Some L \<and> cells (heap s) (head_next_node L) cs \<and> m_size L = length cs"
  by (auto simp: list_at_def split: option.splits)

lemma op_eq_by_cells:
  assumes "list_at s A xs" "list_at s B ys"
  shows "op_eq_by eq A B s = Some (Inr (list_all2 eq (contents xs) (contents ys)))"
proof -
  from assms obtain LA LB where "objs s A = Some LA" "cells (heap s) (head_next_node LA) xs"
    "objs s B = Some LB" "cells (heap s) (head_next_node LB) ys"
    by (auto simp: list_at_def split: option.splits)
  then show ?thesis
    by (simp add: op_eq_by_def cbegin_def cend_def std_equal_by_cells)
qed

lemma op_eq_by_value_equality: "op_eq_by (=) A B s = op_eq A B s"
  by (simp add: op_eq_by_def op_eq_def std_equal_def split: sum.splits)

lemma op_eq_cells:
  assumes "list_at s A xs" "list_at s B ys"
  shows "op_eq A B s = Some (Inr (contents xs = contents ys))"
proof -
  from assms obtain LA LB where "objs s A = Some LA" "cells (heap s) (head_next_node LA) xs"
    "objs s B = Some LB" "cells (heap s) (head_next_node LB) ys"
    using list_atD by blast
  then show ?thesis
    by (simp add: op_eq_def cbegin_def cend_def std_equal_cells)
qed

lemma op_less_cells:
  assumes "list_at s A xs" "list_at s B ys"
  shows "op_less A B s = Some (Inr ((contents xs, contents ys) \<in> lexord {(u, v). u < v}))"
proof -
  from assms obtain LA LB where "objs s A = Some LA" "cells (heap s) (head_next_node LA) xs"
    "objs s B = Some LB" "cells (heap s) (head_next_node LB) ys"
    using list_atD by blast
  then show ?thesis
    by (simp add: op_less_def cbegin_def cend_def std_lexicographical_compare_cells)
qed

lemma GetSize_list_at: "list_at s l cs \<Longrightarrow> GetSize l s = Inr (length (contents cs))"
  by (auto simp: GetSize_def contents_def dest: list_atD)


lemma ex_list_at: "list_at ex_state 0 (ex_abs 0)" "list_at ex_state 1 (ex_abs 1)"
  by (simp_all add: list_at_def ex_state_def ex_abs_def)


text \<open>
  Claim C3. For lists \<open>A\<close> and \<open>B\<close> over a linearly ordered element type that hold
  their cells, \<^verbatim>\<open>A < B\<close> returns the lexicographic comparison of the element sequences,
  so a strict prefix compares less; \<^verbatim>\<open>A > B\<close> is \<^verbatim>\<open>B < A\<close>, \<^verbatim>\<open>A <= B\<close> is the negation of
  \<^verbatim>\<open>B < A\<close>, \<^verbatim>\<open>A >= B\<close> is the negation of \<^verbatim>\<open>A < B\<close>; and exactly one of \<^verbatim>\<open>A < B\<close>,
  \<^verbatim>\<open>A == B\<close>, \<^verbatim>\<open>B < A\<close> is true.
\<close>

theorem ordering_is_lexicographic:
  fixes s :: "('a::linorder) state"
  assumes "list_at s A xs" and "list_at s B ys"
  shows "op_less A B s = Some (Inr ((contents xs, contents ys) \<in> lexord {(u, v). u < v})) \<and>
         ((\<exists>zs. zs \<noteq> [] \<and> contents ys = contents xs @ zs) \<longrightarrow> op_less A B s = Some (Inr True)) \<and>
         op_greater A B s = op_less B A s \<and>
         op_less_eq A B s = Some (Inr (\<not> (contents ys, contents xs) \<in> lexord {(u, v). u < v})) \<and>
         op_greater_eq A B s = Some (Inr (\<not> (contents xs, contents ys) \<in> lexord {(u, v). u < v})) \<and>
         (\<exists>lt eq gt. op_less A B s = Some (Inr lt) \<and> op_eq A B s = Some (Inr eq) \<and>
                     op_less B A s = Some (Inr gt) \<and>
                     ((lt \<and> \<not> eq \<and> \<not> gt) \<or> (\<not> lt \<and> eq \<and> \<not> gt) \<or> (\<not> lt \<and> \<not> eq \<and> gt)))"
proof -
  note lt = op_less_cells[OF assms]
  note gt = op_less_cells[OF assms(2) assms(1)]
  note eq = op_eq_cells[OF assms]
  have pre: "op_less A B s = Some (Inr True)" if "\<exists>zs. zs \<noteq> [] \<and> contents ys = contents xs @ zs"
  proof -
    from that obtain z zs where "contents ys = contents xs @ z # zs"
      by (metis list.exhaust)
    then have "(contents xs, contents ys) \<in> lexord {(u, v). u < v}"
      by (simp add: lexord_append_rightI)
    with lt show ?thesis by simp
  qed
  have tri: "(contents xs < contents ys \<and> contents xs \<noteq> contents ys \<and> \<not> contents ys < contents xs) \<or>
             (\<not> contents xs < contents ys \<and> contents xs = contents ys \<and> \<not> contents ys < contents xs) \<or>
             (\<not> contents xs < contents ys \<and> contents xs \<noteq> contents ys \<and> contents ys < contents xs)"
    by (metis linorder_less_linear order_less_asym order_less_irrefl)
  have "\<exists>lt eq gt. op_less A B s = Some (Inr lt) \<and> op_eq A B s = Some (Inr eq) \<and>
                     op_less B A s = Some (Inr gt) \<and>
                     ((lt \<and> \<not> eq \<and> \<not> gt) \<or> (\<not> lt \<and> eq \<and> \<not> gt) \<or> (\<not> lt \<and> \<not> eq \<and> gt))"
    using lt gt eq tri unfolding list_less_def by blast
  with lt gt pre show ?thesis
    by (simp add: op_greater_def op_less_eq_def op_greater_eq_def negate_def)
qed

theorem ordering_is_lexicographic_witness:
  "list_at ex_state 0 (ex_abs 0) \<and> list_at ex_state 1 (ex_abs 1) \<and>
   contents (ex_abs 0) = [1, 2, 3] \<and> contents (ex_abs 1) = [1, 2, 3] @ [4] \<and>
   op_less 0 1 ex_state = Some (Inr True) \<and>
   op_greater 0 1 ex_state = op_less 1 0 ex_state \<and>
   op_less_eq 0 1 ex_state = Some (Inr True) \<and>
   op_greater_eq 0 1 ex_state = Some (Inr False)"
proof -
  have c: "contents (ex_abs 0) = [1, 2, 3]" "contents (ex_abs 1) = [1, 2, 3] @ [4]"
    by (simp_all add: contents_def ex_abs_def)
  then have p: "\<exists>zs. zs \<noteq> [] \<and> contents (ex_abs 1) = contents (ex_abs 0) @ zs" by simp
  note t = ordering_is_lexicographic[OF ex_list_at(1) ex_list_at(2)]
  from t p have lt: "op_less 0 1 ex_state = Some (Inr True)" by blast
  from t have g: "op_greater 0 1 ex_state = op_less 1 0 ex_state" by blast
  from t have "op_greater_eq 0 1 ex_state
      = Some (Inr (\<not> (contents (ex_abs 0), contents (ex_abs 1)) \<in> lexord {(u, v). u < v}))"
    by blast
  then have ge: "op_greater_eq 0 1 ex_state = Some (Inr False)"
    unfolding c by (simp add: lexord_append_rightI)
  from t have "op_less_eq 0 1 ex_state
      = Some (Inr (\<not> (contents (ex_abs 1), contents (ex_abs 0)) \<in> lexord {(u, v). u < v}))"
    by blast
  then have le: "op_less_eq 0 1 ex_state = Some (Inr True)"
    unfolding c by simp
  from ex_list_at c lt g le ge show ?thesis by (intro conjI)
qed

subsection \<open>Construction from a sequence of values\<close>

lemma PushFront_models:
  assumes m: "models s \<sigma>" and th: "objs s this = Some L" and al: "allocs s = Some a # rest"
  shows "\<exists>s'. PushFront this v s = Done () s' \<and> models s' (\<sigma>(this := (a, v) # \<sigma> this)) \<and>
              allocs s' = rest \<and> next_obj s' = next_obj s \<and> (\<forall>l. live s' l = live s l)"
proof -
  have sp: "\<sigma> this = [] @ \<sigma> this" by simp
  from InsertAfter_models[OF m th sp al, of v] obtain s' where s':
    "InsertAfter this \<lparr>m_node = Some (Sentinel this)\<rparr> v s = Done \<lparr>m_node = Some (Cell a)\<rparr> s'"
    "models s' (\<sigma>(this := (a, v) # \<sigma> this))" "allocs s' = rest" "next_obj s' = next_obj s"
    "\<forall>l. live s' l = live s l"
    by (auto simp: pos_after_def)
  from s'(1) InsertAfter_at_Sentinel[of this v s] have "PushFront this v s = Done () s'"
    by (metis map_result.simps(1))
  with s' show ?thesis by blast
qed

lemma PushFront_each_models:
  assumes "models s \<sigma>" "live s this" "allocs s = map Some as @ rest" "length as = length vs"
    "\<sigma>' = \<sigma>(this := rev (zip as vs) @ \<sigma> this)"
  shows "\<exists>s'. PushFront_each this vs s = Done () s' \<and> models s' \<sigma>' \<and>
              allocs s' = rest \<and> next_obj s' = next_obj s \<and> (\<forall>l. live s' l = live s l)"
  using assms
proof (induction vs arbitrary: s \<sigma> as)
  case Nil
  then have "models s \<sigma>'" by (simp add: fun_upd_idem)
  with Nil(3,4) show ?case by (intro exI[of _ s]) simp
next
  case (Cons v vs)
  from Cons.prems(4) obtain a as' where as: "as = a # as'" "length as' = length vs"
    by (cases as) auto
  from Cons.prems(2) obtain L where L: "objs s this = Some L" by (auto simp: live_def)
  from Cons.prems(3) as have al: "allocs s = Some a # (map Some as' @ rest)" by simp
  from PushFront_models[OF Cons.prems(1) L al, of v] obtain s1 where s1:
    "PushFront this v s = Done () s1" "models s1 (\<sigma>(this := (a, v) # \<sigma> this))"
    "allocs s1 = map Some as' @ rest" "next_obj s1 = next_obj s" "\<forall>l. live s1 l = live s l"
    by blast
  from s1(5) Cons.prems(2) have l1: "live s1 this" by simp
  have e: "\<sigma>' = (\<sigma>(this := (a, v) # \<sigma> this))
                (this := rev (zip as' vs) @ (\<sigma>(this := (a, v) # \<sigma> this)) this)"
    by (simp only: Cons.prems(5) as fun_upd_upd fun_upd_same zip_Cons_Cons rev.simps append_assoc
        append_Cons append_Nil)
  from Cons.IH[OF s1(2) l1 s1(3) as(2) e] obtain s' where
    "PushFront_each this vs s1 = Done () s'" "models s' \<sigma>'" "allocs s' = rest"
    "next_obj s' = next_obj s1" "\<forall>l. live s' l = live s1 l"
    by blast
  with s1 show ?case by (intro exI[of _ s']) simp
qed

lemma PushFront_each_throw:
  assumes "models s \<sigma>" "live s this" "allocs s = map Some as @ rest" "length as < length vs"
    "rest = [] \<or> (\<exists>r. rest = None # r)"
  shows "\<exists>s'. PushFront_each this vs s = Throw s'"
  using assms
proof (induction vs arbitrary: s \<sigma> as)
  case Nil
  then show ?case by simp
next
  case (Cons v vs)
  from Cons.prems(2) obtain L where L: "objs s this = Some L" by (auto simp: live_def)
  show ?case
  proof (cases as)
    case Nil
    with Cons.prems(3,5) have "allocs s = [] \<or> (\<exists>r. allocs s = None # r)" by simp
    from PushFront_fail[OF L this, of v] show ?thesis by auto
  next
    case (Cons a as')
    with Cons.prems(3) have al: "allocs s = Some a # (map Some as' @ rest)" by simp
    from PushFront_models[OF Cons.prems(1) L al, of v] obtain s1 where s1:
      "PushFront this v s = Done () s1" "models s1 (\<sigma>(this := (a, v) # \<sigma> this))"
      "allocs s1 = map Some as' @ rest" "\<forall>l. live s1 l = live s l"
      by blast
    from s1(4) Cons.prems(2) have l1: "live s1 this" by simp
    from Cons Cons.prems(4) have "length as' < length vs" by simp
    from Cons.IH[OF s1(2) l1 s1(3) this Cons.prems(5)] s1(1) show ?thesis by simp
  qed
qed

lemma new_object_shape:
  assumes "shape s \<sigma>" "new_object s = (t, s1)"
  shows "t = next_obj s" and "objs s t = None" and "shape s1 (\<sigma>(t := []))"
    and "objs s1 t = Some \<lparr>head_next_node = None, m_size = 0\<rparr>"
    and "\<forall>l. l \<noteq> t \<longrightarrow> objs s1 l = objs s l" and "heap s1 = heap s"
    and "allocs s1 = allocs s" and "next_obj s1 = Suc (next_obj s)"
proof -
  from assms(2) have t: "t = next_obj s"
    and s1: "s1 = s\<lparr>objs := (objs s)(next_obj s \<mapsto> \<lparr>head_next_node = None, m_size = 0\<rparr>),
                    next_obj := Suc (next_obj s)\<rparr>"
    by (auto simp add: new_object_def)
  from assms(1) have st: "\<And>l. next_obj s \<le> l \<Longrightarrow> objs s l = None" by (simp add: shape_def)
  then show d: "objs s t = None" by (simp add: t)
  show "shape s1 (\<sigma>(t := []))"
    using assms(1) d unfolding shape_def alloc_fresh_def s1 t
    by (auto split: if_splits)
  show "t = next_obj s" by (rule t)
  show "objs s1 t = Some \<lparr>head_next_node = None, m_size = 0\<rparr>"
    "\<forall>l. l \<noteq> t \<longrightarrow> objs s1 l = objs s l" "heap s1 = heap s"
    "allocs s1 = allocs s" "next_obj s1 = Suc (next_obj s)"
    by (simp_all add: s1 t)
qed

lemma new_object_models:
  assumes "models s \<sigma>" "new_object s = (t, s1)"
  shows "t = next_obj s" and "\<not> live s t" and "models s1 (\<sigma>(t := []))"
    and "objs s1 t = Some \<lparr>head_next_node = None, m_size = 0\<rparr>"
    and "\<forall>l. live s1 l = (l = t \<or> live s l)" and "heap s1 = heap s"
    and "allocs s1 = allocs s" and "next_obj s1 = Suc (next_obj s)"
proof -
  from assms(1) have sh: "shape s \<sigma>" and sz: "sizes_ok s \<sigma>" by (simp_all add: models_def)
  note n = new_object_shape[OF sh assms(2)]
  from n(4,5) sz have "sizes_ok s1 (\<sigma>(t := []))" by (auto simp: sizes_ok_def)
  with n(3) show "models s1 (\<sigma>(t := []))" by (simp add: models_def)
  show "\<forall>l. live s1 l = (l = t \<or> live s l)"
  proof
    fix l
    show "live s1 l = (l = t \<or> live s l)"
    proof (cases "l = t")
      case True
      with n(4) show ?thesis by (simp add: live_def)
    next
      case False
      with n(5) have "objs s1 l = objs s l" by blast
      with False show ?thesis by (simp add: live_def)
    qed
  qed
  from n show "t = next_obj s" "\<not> live s t"
    "objs s1 t = Some \<lparr>head_next_node = None, m_size = 0\<rparr>" "heap s1 = heap s"
    "allocs s1 = allocs s" "next_obj s1 = Suc (next_obj s)"
    by (simp_all add: live_def)
qed

lemma traverse_cells:
  "cells (heap s) p cs \<Longrightarrow> traverse \<lparr>m_node = p\<rparr> \<lparr>m_node = None\<rparr> s = Some (Inr (contents cs))"
proof (induction cs arbitrary: p)
  case Nil
  then show ?case by (subst traverse.simps) (simp add: it_neq_def contents_def)
next
  case (Cons x cs)
  obtain a v where x: "x = (a, v)" by (cases x)
  from Cons.prems x obtain n where n: "p = Some (Cell a)" "heap s a = Some n"
    "node_value n = v" "cells (heap s) (next_node n) cs" by auto
  from Cons.IH[OF n(4)] n x show ?case
    by (subst traverse.simps) (simp add: it_neq_def it_deref_Cell it_incr_Cell contents_def)
qed

lemma to_list_list_at: "list_at s l cs \<Longrightarrow> to_list l s = Some (Inr (contents cs))"
  by (auto simp: to_list_def begin_it_def cbegin_def end_it_def traverse_cells dest!: list_atD)

lemma contents_zip: "length as = length vs \<Longrightarrow> contents (zip as vs) = vs"
  by (simp add: contents_def)

lemma SingleLinkedList_init_models:
  assumes "models s \<sigma>" and "allocs s = map Some as @ rest" and "length as = length vs"
  shows "\<exists>s'. SingleLinkedList_init vs s = Done (next_obj s) s' \<and> \<not> live s (next_obj s) \<and>
           models s' (\<sigma>(next_obj s := zip (rev as) vs)) \<and>
           (\<forall>l. live s' l = (l = next_obj s \<or> live s l)) \<and>
           (\<exists>s1. new_object s = (next_obj s, s1) \<and>
                 PushFront_each (next_obj s) (rev vs) s1 = Done () s')"
proof -
  obtain t s1 where n: "new_object s = (t, s1)" by (cases "new_object s")
  note no = new_object_models[OF assms(1) n]
  from no(5) have l1: "live s1 t" by simp
  from assms(2) no(7) have al: "allocs s1 = map Some as @ rest" by simp
  from assms(3) have len: "length as = length (rev vs)" by simp
  have e: "zip (rev as) vs = rev (zip as (rev vs)) @ (\<sigma>(t := [])) t"
    using assms(3) zip_rev[of as "rev vs"] by simp
  have e': "\<sigma>(t := zip (rev as) vs) = (\<sigma>(t := []))(t := rev (zip as (rev vs)) @ (\<sigma>(t := [])) t)"
    by (simp only: e fun_upd_upd)
  from PushFront_each_models[OF no(3) l1 al len e'] obtain s' where s':
    "PushFront_each t (rev vs) s1 = Done () s'" "models s' (\<sigma>(t := zip (rev as) vs))"
    "\<forall>l. live s' l = live s1 l"
    by blast
  from n s'(1) have "SingleLinkedList_init vs s = Done t s'"
    by (simp add: SingleLinkedList_init_def)
  moreover from s'(3) no(5) have "\<forall>l. live s' l = (l = t \<or> live s l)" by simp
  ultimately show ?thesis using s' n no(1,2) by auto
qed

lemma SingleLinkedList_init_not_done:
  assumes "models s \<sigma>" and "allocs s = map Some as @ rest" and "length as < length vs"
    and "rest = [] \<or> (\<exists>r. rest = None # r)"
  shows "SingleLinkedList_init vs s \<noteq> Done u s'"
proof -
  obtain t s1 where n: "new_object s = (t, s1)" by (cases "new_object s")
  note no = new_object_models[OF assms(1) n]
  from no(5) have l1: "live s1 t" by simp
  from assms(2) no(7) have al: "allocs s1 = map Some as @ rest" by simp
  from assms(3) have len: "length as < length (rev vs)" by simp
  from PushFront_each_throw[OF no(3) l1 al len assms(4)] obtain s2 where
    "PushFront_each t (rev vs) s1 = Throw s2" by blast
  with n show ?thesis by (simp add: SingleLinkedList_init_def)
qed

text \<open>
  Claim C4. In a well-formed state where the next \<open>n\<close> allocations succeed, declaring a
  list from the values \<open>v1, ..., vn\<close> returns a new list whose forward traversal yields
  \<open>v1, ..., vn\<close> in that order and whose size is \<open>n\<close>. The values are pushed to the front
  from the last to the first: the node allocated first holds \<open>vn\<close>, the node allocated
  last holds \<open>v1\<close>.
\<close>

theorem SingleLinkedList_init_keeps_order:
  assumes "models s \<sigma>" and "allocs s = map Some as @ rest" and "length as = length vs"
  shows "\<exists>this s'. SingleLinkedList_init vs s = Done this s' \<and> \<not> live s this \<and>
           models s' (\<sigma>(this := zip (rev as) vs)) \<and>
           to_list this s' = Some (Inr vs) \<and> GetSize this s' = Inr (length vs) \<and>
           (\<exists>s1. new_object s = (this, s1) \<and> PushFront_each this (rev vs) s1 = Done () s')"
proof -
  let ?t = "next_obj s"
  from SingleLinkedList_init_models[OF assms] obtain s' where s':
    "SingleLinkedList_init vs s = Done ?t s'" "\<not> live s ?t"
    "models s' (\<sigma>(?t := zip (rev as) vs))" "\<forall>l. live s' l = (l = ?t \<or> live s l)"
    "\<exists>s1. new_object s = (?t, s1) \<and> PushFront_each ?t (rev vs) s1 = Done () s'"
    by blast
  from s'(4) have "live s' ?t" by simp
  with s'(3) have la: "list_at s' ?t (zip (rev as) vs)"
    using models_list_at by fastforce
  from assms(3) have c: "contents (zip (rev as) vs) = vs" by (simp add: contents_zip)
  from la c have "to_list ?t s' = Some (Inr vs)" "GetSize ?t s' = Inr (length vs)"
    using to_list_list_at GetSize_list_at by fastforce+
  with s' show ?thesis by blast
qed

theorem SingleLinkedList_init_keeps_order_witness:
  "models ex_state ex_abs \<and> allocs ex_state = map Some [30, 31, 32] @ [None] \<and>
   length [30, 31, 32 :: addr] = length [1, 2, 3 :: int] \<and>
   (\<exists>this s'. SingleLinkedList_init [1, 2, 3] ex_state = Done this s' \<and> \<not> live ex_state this \<and>
      models s' (ex_abs(this := [(32, 1), (31, 2), (30, 3)])) \<and>
      to_list this s' = Some (Inr [1, 2, 3]) \<and> GetSize this s' = Inr 3)"
proof -
  have al: "allocs ex_state = map Some [30, 31, 32] @ [None]" by (simp add: ex_state_def)
  have len: "length [30, 31, 32 :: addr] = length [1, 2, 3 :: int]" by simp
  have z: "zip (rev [30, 31, 32 :: addr]) [1, 2, 3 :: int] = [(32, 1), (31, 2), (30, 3)]"
    "length [1, 2, 3 :: int] = 3"
    by simp_all
  from SingleLinkedList_init_keeps_order[OF ex_models al len] obtain t s' where
    "SingleLinkedList_init [1, 2, 3] ex_state = Done t s'" "\<not> live ex_state t"
    "models s' (ex_abs(t := zip (rev [30, 31, 32]) [1, 2, 3]))"
    "to_list t s' = Some (Inr [1, 2, 3])" "GetSize t s' = Inr (length [1, 2, 3 :: int])"
    by blast
  then have "SingleLinkedList_init [1, 2, 3] ex_state = Done t s' \<and> \<not> live ex_state t \<and>
      models s' (ex_abs(t := [(32, 1), (31, 2), (30, 3)])) \<and>
      to_list t s' = Some (Inr [1, 2, 3]) \<and> GetSize t s' = Inr 3"
    unfolding z by (intro conjI)
  then have "\<exists>this s'. SingleLinkedList_init [1, 2, 3] ex_state = Done this s' \<and> \<not> live ex_state this \<and>
      models s' (ex_abs(this := [(32, 1), (31, 2), (30, 3)])) \<and>
      to_list this s' = Some (Inr [1, 2, 3]) \<and> GetSize this s' = Inr 3"
    by (intro exI)
  with ex_models al len show ?thesis by (intro conjI)
qed

subsection \<open>The copy constructor and assignment\<close>

lemma shape_node_at:
  assumes "shape s \<sigma>" "objs s l = Some L" "\<sigma> l = seen @ (c, w) # todo"
  shows "\<exists>m. heap s c = Some m \<and> node_value m = w \<and> next_node m = first_of todo"
proof -
  from assms have "cells (heap s) (head_next_node L) (seen @ (c, w) # todo)"
    using shapeD_cells by fastforce
  then have "cells (heap s) (Some (Cell c)) ((c, w) # todo)" by (rule cells_drop_prefix)
  then obtain m where "heap s c = Some m" "node_value m = w" "cells (heap s) (next_node m) todo"
    by auto
  then show ?thesis using cells_first by blast
qed

lemma size_of_Some: "size_of s l = Some k \<Longrightarrow> \<exists>L. objs s l = Some L \<and> m_size L = k"
  by (auto simp: size_of_def)

lemma size_of_objs: "objs s l = Some L \<Longrightarrow> size_of s l = Some (m_size L)"
  by (simp add: size_of_def)

lemma pos_after_snoc: "pos_after l (xs @ [(a, v)]) = Cell a"
  by (simp add: pos_after_def)

lemma copy_loop_done:
  "m_node it = None \<Longrightarrow> copy_loop this other it temp_it s = Some (Done temp_it s)"
  by (subst copy_loop.simps) (simp add: it_neq_def cend_def)

lemma copy_loop_step:
  assumes "it_deref \<lparr>m_node = Some p\<rparr> s = Inr w" "InsertAfter this temp_it w s = Done temp_it' s1"
    "it_incr \<lparr>m_node = Some p\<rparr> s1 = Inr it'"
  shows "copy_loop this other \<lparr>m_node = Some p\<rparr> temp_it s = copy_loop this other it' temp_it' s1"
  using assms by (subst copy_loop.simps) (simp add: it_neq_def cend_def)

lemma copy_loop_throw_step:
  assumes "it_deref \<lparr>m_node = Some p\<rparr> s = Inr w" "InsertAfter this temp_it w s = Throw s1"
  shows "copy_loop this other \<lparr>m_node = Some p\<rparr> temp_it s = Some (Throw s1)"
  using assms by (subst copy_loop.simps) (simp add: it_neq_def cend_def)

text \<open>
  The loop of the copy constructor, started at the cells \<open>todo\<close> of \<open>other\<close> that remain,
  with \<open>temp_it\<close> at the end of the list \<open>tgt\<close>: every value is appended to \<open>tgt\<close>, and
  the size of \<open>this\<close> is what counts them.
\<close>

lemma copy_loop_shape:
  assumes "shape s \<sigma>" "objs s this = Some L" "objs s tgt = Some T" "objs s other = Some Lo"
    "tgt \<noteq> other" "\<sigma> other = seen @ todo" "\<sigma> tgt = xs"
    "allocs s = map Some as @ rest" "length as = length todo"
    "\<sigma>' = \<sigma>(tgt := xs @ zip as (contents todo))" "m_size L = length xs"
  shows "\<exists>s' r. copy_loop this other \<lparr>m_node = first_of todo\<rparr> \<lparr>m_node = Some (pos_after tgt xs)\<rparr> s
                  = Some (Done r s') \<and>
              shape s' \<sigma>' \<and> allocs s' = rest \<and> next_obj s' = next_obj s \<and>
              (\<forall>l. size_of s' l = (if l = this then Some (m_size L + length todo) else size_of s l))"
  using assms
proof (induction todo arbitrary: s \<sigma> L T Lo xs seen as)
  case Nil
  have "copy_loop this other \<lparr>m_node = first_of []\<rparr> \<lparr>m_node = Some (pos_after tgt xs)\<rparr> s
        = Some (Done \<lparr>m_node = Some (pos_after tgt xs)\<rparr> s)"
    by (rule copy_loop_done) (simp add: first_of_def)
  moreover from Nil(9) have "as = []" by simp
  with Nil(1,7) have "shape s \<sigma>'" unfolding Nil(10) by (simp add: contents_def fun_upd_idem)
  moreover from Nil(8) \<open>as = []\<close> have "allocs s = rest" by simp
  moreover from Nil(2) have "size_of s this = Some (m_size L + length ([] :: (addr \<times> 'a) list))"
    by (simp add: size_of_def)
  ultimately show ?case by (intro exI[of _ s] exI) simp
next
  case (Cons x todo)
  obtain c w where x: "x = (c, w)" by (cases x)
  from Cons.prems(9) obtain a as' where as: "as = a # as'" "length as' = length todo"
    by (cases as) auto
  from Cons.prems(8) as have al: "allocs s = Some a # (map Some as' @ rest)" by simp
  from Cons.prems(6) x have so: "\<sigma> other = seen @ (c, w) # todo" by simp
  from shape_node_at[OF Cons.prems(1) Cons.prems(4) so] obtain m where
    m: "heap s c = Some m" "node_value m = w" by blast
  then have de: "it_deref \<lparr>m_node = Some (Cell c)\<rparr> s = Inr w" by (simp add: it_deref_Cell)
  from Cons.prems(7) have st: "\<sigma> tgt = xs @ []" by simp
  from InsertAfter_shape[OF Cons.prems(1) Cons.prems(2) Cons.prems(3) st al, of w]
  obtain s1 where s1:
    "InsertAfter this \<lparr>m_node = Some (pos_after tgt xs)\<rparr> w s = Done \<lparr>m_node = Some (Cell a)\<rparr> s1"
    "shape s1 (\<sigma>(tgt := xs @ [(a, w)]))" "allocs s1 = map Some as' @ rest"
    "next_obj s1 = next_obj s"
    "\<forall>l. size_of s1 l = (if l = this then Some (incr (m_size L)) else size_of s l)"
    by blast
  let ?\<sigma>1 = "\<sigma>(tgt := xs @ [(a, w)])"
  from s1(5) Cons.prems(3) have "size_of s1 tgt \<noteq> None" by (simp add: size_of_def)
  then obtain T1 where T1: "objs s1 tgt = Some T1" by (auto simp: size_of_def)
  from s1(2) T1 have "length (?\<sigma>1 tgt) \<le> SIZE_MAX" by (rule shape_length)
  with Cons.prems(11) have "m_size L < SIZE_MAX" by simp
  then have nw: "incr (m_size L) = m_size L + 1" by (rule incr_no_wrap)
  from s1(5) have "size_of s1 this = Some (incr (m_size L))" by simp
  then obtain L1 where L1: "objs s1 this = Some L1" "m_size L1 = m_size L + 1"
    unfolding nw using size_of_Some by blast
  from L1(2) Cons.prems(11) have k1: "m_size L1 = length (xs @ [(a, w)])" by simp
  from s1(5) Cons.prems(4) have "size_of s1 other \<noteq> None" by (simp add: size_of_def)
  then obtain O1 where O1: "objs s1 other = Some O1" by (auto simp: size_of_def)
  from Cons.prems(5) so have so1: "?\<sigma>1 other = (seen @ [(c, w)]) @ todo" by simp
  from Cons.prems(5) so have so1': "?\<sigma>1 other = seen @ (c, w) # todo" by simp
  from shape_node_at[OF s1(2) O1 so1'] obtain m1 where
    m1: "heap s1 c = Some m1" "next_node m1 = first_of todo" by blast
  then have inc: "it_incr \<lparr>m_node = Some (Cell c)\<rparr> s1 = Inr \<lparr>m_node = first_of todo\<rparr>"
    by (simp add: it_incr_Cell)
  have fo: "first_of (x # todo) = Some (Cell c)" by (simp add: first_of_def x)
  have step: "copy_loop this other \<lparr>m_node = first_of (x # todo)\<rparr> \<lparr>m_node = Some (pos_after tgt xs)\<rparr> s
      = copy_loop this other \<lparr>m_node = first_of todo\<rparr> \<lparr>m_node = Some (pos_after tgt (xs @ [(a, w)]))\<rparr> s1"
    unfolding fo pos_after_snoc using de s1(1) inc by (rule copy_loop_step)
  have st1: "?\<sigma>1 tgt = xs @ [(a, w)]" by simp
  have e: "\<sigma>' = ?\<sigma>1(tgt := (xs @ [(a, w)]) @ zip as' (contents todo))"
    by (simp only: Cons.prems(10) as x contents_def fun_upd_upd list.map snd_conv zip_Cons_Cons
        append_assoc append_Cons append_Nil)
  from Cons.IH[OF s1(2) L1(1) T1 O1 Cons.prems(5) so1 st1 s1(3) as(2) e k1]
  obtain s' r where s':
    "copy_loop this other \<lparr>m_node = first_of todo\<rparr> \<lparr>m_node = Some (pos_after tgt (xs @ [(a, w)]))\<rparr> s1
       = Some (Done r s')"
    "shape s' \<sigma>'" "allocs s' = rest" "next_obj s' = next_obj s1"
    "\<forall>l. size_of s' l = (if l = this then Some (m_size L1 + length todo) else size_of s1 l)"
    by blast
  from s'(5) s1(5) L1(2) nw
  have "\<forall>l. size_of s' l = (if l = this then Some (m_size L + length (x # todo)) else size_of s l)"
    by simp
  with step s' s1(4) show ?case by (intro exI[of _ s'] exI[of _ r]) simp
qed

lemma copy_loop_throw:
  assumes "shape s \<sigma>" "objs s this = Some L" "objs s tgt = Some T" "objs s other = Some Lo"
    "tgt \<noteq> other" "\<sigma> other = seen @ todo" "\<sigma> tgt = xs"
    "allocs s = map Some as @ rest" "length as < length todo"
    "rest = [] \<or> (\<exists>r. rest = None # r)"
  shows "\<exists>s'. copy_loop this other \<lparr>m_node = first_of todo\<rparr> \<lparr>m_node = Some (pos_after tgt xs)\<rparr> s
                  = Some (Throw s')"
  using assms
proof (induction todo arbitrary: s \<sigma> L T Lo xs seen as)
  case Nil
  then show ?case by simp
next
  case (Cons x todo)
  obtain c w where x: "x = (c, w)" by (cases x)
  from Cons.prems(6) x have so: "\<sigma> other = seen @ (c, w) # todo" by simp
  from shape_node_at[OF Cons.prems(1) Cons.prems(4) so] obtain m where
    m: "heap s c = Some m" "node_value m = w" by blast
  then have de: "it_deref \<lparr>m_node = Some (Cell c)\<rparr> s = Inr w" by (simp add: it_deref_Cell)
  have fo: "first_of (x # todo) = Some (Cell c)" by (simp add: first_of_def x)
  from Cons.prems(7) have st: "\<sigma> tgt = xs @ []" by simp
  show ?case
  proof (cases as)
    case Nil
    with Cons.prems(8,10) have f: "allocs s = [] \<or> (\<exists>r. allocs s = None # r)" by simp
    have "get_next s (pos_after tgt xs) \<noteq> None"
    proof (cases "xs = []")
      case True
      with Cons.prems(3) show ?thesis by (simp add: pos_after_def get_next_def)
    next
      case False
      from Cons.prems(1,3) st have "cells (heap s) (head_next_node T) (xs @ [])"
        using shapeD_cells by fastforce
      from cells_last_next[OF this False] False show ?thesis
        by (auto simp: pos_after_def get_next_def)
    qed
    from InsertAfter_fail[OF this f, of this w] obtain s1 where
      "InsertAfter this \<lparr>m_node = Some (pos_after tgt xs)\<rparr> w s = Throw s1" by blast
    with de have "copy_loop this other \<lparr>m_node = Some (Cell c)\<rparr> \<lparr>m_node = Some (pos_after tgt xs)\<rparr> s
        = Some (Throw s1)" by (rule copy_loop_throw_step)
    then show ?thesis unfolding fo by blast
  next
    case (Cons a as')
    with Cons.prems(8) have al: "allocs s = Some a # (map Some as' @ rest)" by simp
    from InsertAfter_shape[OF Cons.prems(1) Cons.prems(2) Cons.prems(3) st al, of w]
    obtain s1 where s1:
      "InsertAfter this \<lparr>m_node = Some (pos_after tgt xs)\<rparr> w s = Done \<lparr>m_node = Some (Cell a)\<rparr> s1"
      "shape s1 (\<sigma>(tgt := xs @ [(a, w)]))" "allocs s1 = map Some as' @ rest"
      "\<forall>l. size_of s1 l = (if l = this then Some (incr (m_size L)) else size_of s l)"
      by blast
    let ?\<sigma>1 = "\<sigma>(tgt := xs @ [(a, w)])"
    from s1(4) have "size_of s1 this = Some (incr (m_size L))" by simp
    then obtain L1 where L1: "objs s1 this = Some L1" using size_of_Some by blast
    from s1(4) Cons.prems(3) have "size_of s1 tgt \<noteq> None" by (simp add: size_of_def)
    then obtain T1 where T1: "objs s1 tgt = Some T1" by (auto simp: size_of_def)
    from s1(4) Cons.prems(4) have "size_of s1 other \<noteq> None" by (simp add: size_of_def)
    then obtain O1 where O1: "objs s1 other = Some O1" by (auto simp: size_of_def)
    from Cons.prems(5) so have so1: "?\<sigma>1 other = (seen @ [(c, w)]) @ todo" by simp
    from Cons.prems(5) so have so1': "?\<sigma>1 other = seen @ (c, w) # todo" by simp
    from shape_node_at[OF s1(2) O1 so1'] obtain m1 where
      m1: "heap s1 c = Some m1" "next_node m1 = first_of todo" by blast
    then have inc: "it_incr \<lparr>m_node = Some (Cell c)\<rparr> s1 = Inr \<lparr>m_node = first_of todo\<rparr>"
      by (simp add: it_incr_Cell)
    have step: "copy_loop this other \<lparr>m_node = first_of (x # todo)\<rparr> \<lparr>m_node = Some (pos_after tgt xs)\<rparr> s
        = copy_loop this other \<lparr>m_node = first_of todo\<rparr> \<lparr>m_node = Some (pos_after tgt (xs @ [(a, w)]))\<rparr> s1"
      unfolding fo pos_after_snoc using de s1(1) inc by (rule copy_loop_step)
    have st1: "?\<sigma>1 tgt = xs @ [(a, w)]" by simp
    from Cons Cons.prems(9) have len: "length as' < length todo" by simp
    from Cons.IH[OF s1(2) L1 T1 O1 Cons.prems(5) so1 st1 s1(3) len Cons.prems(10)] step
    show ?thesis by simp
  qed
qed

lemma shape_dead_update: "shape s \<sigma> \<Longrightarrow> objs s l = None \<Longrightarrow> shape s (\<sigma>(l := cs))"
  unfolding shape_def by auto

lemma release_object_shape: "shape s \<sigma> \<Longrightarrow> shape (release_object l s) \<sigma>"
  unfolding shape_def alloc_fresh_def release_object_def by auto

lemma Swap_live:
  assumes "objs s A = Some LA" "objs s B = Some LB"
  shows "Swap A B s =
         Done () (s\<lparr>objs := (objs s)
                 (B \<mapsto> LB\<lparr>head_next_node := head_next_node LA, m_size := m_size LA\<rparr>,
                  A \<mapsto> LA\<lparr>head_next_node := head_next_node LB, m_size := m_size LB\<rparr>)\<rparr>)"
  using assms by (simp add: Swap_def)

lemma Swap_shape:
  assumes sh: "shape s \<sigma>" and a: "objs s A = Some LA" and b: "objs s B = Some LB"
    and e: "\<sigma>' = \<sigma>(A := \<sigma> B, B := \<sigma> A)"
  shows "\<exists>s'. Swap A B s = Done () s' \<and> shape s' \<sigma>' \<and>
              allocs s' = allocs s \<and> next_obj s' = next_obj s \<and> heap s' = heap s \<and>
              (\<forall>l. size_of s' l = (if l = A then size_of s B else if l = B then size_of s A
                                   else size_of s l))"
proof -
  define s' where "s' = s\<lparr>objs := (objs s)
                 (B \<mapsto> LB\<lparr>head_next_node := head_next_node LA, m_size := m_size LA\<rparr>,
                  A \<mapsto> LA\<lparr>head_next_node := head_next_node LB, m_size := m_size LB\<rparr>)\<rparr>"
  from a b have run: "Swap A B s = Done () s'" unfolding s'_def by (rule Swap_live)
  have c1: "cells (heap s') (head_next_node L) (\<sigma>' l)" if "objs s' l = Some L" for l L
  proof -
    consider "l = A" | "l \<noteq> A" "l = B" | "l \<noteq> A" "l \<noteq> B" by blast
    then show ?thesis
    proof cases
      case 1
      with that have "head_next_node L = head_next_node LB" by (auto simp: s'_def)
      moreover from sh b have "cells (heap s) (head_next_node LB) (\<sigma> B)" by (rule shapeD_cells)
      moreover from 1 have "\<sigma>' l = \<sigma> B" by (cases "A = B") (simp_all add: e)
      ultimately show ?thesis by (simp add: s'_def)
    next
      case 2
      with that have "head_next_node L = head_next_node LA" by (auto simp: s'_def)
      moreover from sh a have "cells (heap s) (head_next_node LA) (\<sigma> A)" by (rule shapeD_cells)
      moreover from 2 have "\<sigma>' l = \<sigma> A" by (simp add: e)
      ultimately show ?thesis by (simp add: s'_def)
    next
      case 3
      with that have "objs s l = Some L" by (simp add: s'_def)
      with sh have "cells (heap s) (head_next_node L) (\<sigma> l)" by (rule shapeD_cells)
      with 3 show ?thesis by (simp add: s'_def e)
    qed
  qed
  have lv: "(objs s' l \<noteq> None) = (objs s l \<noteq> None)" for l
    using a b by (simp add: s'_def)
  have perm: "\<exists>k. objs s k \<noteq> None \<and> \<sigma>' l = \<sigma> k \<and> (\<forall>l'. l' \<noteq> l \<longrightarrow> objs s l' \<noteq> None \<longrightarrow>
                 (\<exists>k'. k' \<noteq> k \<and> objs s k' \<noteq> None \<and> \<sigma>' l' = \<sigma> k'))" if "objs s l \<noteq> None" for l
  proof -
    define \<pi> where "\<pi> = (\<lambda>j. if j = A then B else if j = B then A else j)"
    have p1: "\<sigma>' j = \<sigma> (\<pi> j)" for j by (simp add: e \<pi>_def)
    have p2: "objs s (\<pi> j) \<noteq> None" if "objs s j \<noteq> None" for j
      using that a b by (simp add: \<pi>_def)
    have p3: "\<pi> j \<noteq> \<pi> j'" if "j \<noteq> j'" for j j' using that by (auto simp: \<pi>_def)
    from p1 p2 p3 that show ?thesis by (intro exI[of _ "\<pi> l"]) blast
  qed
  have c2: "set (map fst (\<sigma>' l)) \<inter> set (map fst (\<sigma>' l')) = {}"
    if "l \<noteq> l'" "objs s' l \<noteq> None" "objs s' l' \<noteq> None" for l l'
  proof -
    from that lv have ll: "objs s l \<noteq> None" "objs s l' \<noteq> None" by simp_all
    from perm[OF ll(1)] that(1) ll(2) obtain k k' where
      "objs s k \<noteq> None" "\<sigma>' l = \<sigma> k" "k' \<noteq> k" "objs s k' \<noteq> None" "\<sigma>' l' = \<sigma> k'"
      by metis
    with sh show ?thesis unfolding shape_def by metis
  qed
  from sh have "\<forall>l. next_obj s \<le> l \<longrightarrow> objs s l = None" "alloc_fresh s"
    by (simp_all add: shape_def)
  with a b have c3: "\<forall>l. next_obj s' \<le> l \<longrightarrow> objs s' l = None" and c4: "alloc_fresh s'"
    by (auto simp: s'_def alloc_fresh_def)
  from c1 c2 c3 c4 have "shape s' \<sigma>'" unfolding shape_def by blast
  moreover have "\<forall>l. size_of s' l = (if l = A then size_of s B else if l = B then size_of s A
                                   else size_of s l)"
    using a b by (auto simp: size_of_def s'_def)
  moreover have "allocs s' = allocs s" "next_obj s' = next_obj s" "heap s' = heap s"
    by (simp_all add: s'_def)
  ultimately show ?thesis using run by blast
qed

lemma destroy_shape:
  assumes sh: "shape s \<sigma>" and th: "objs s this = Some L"
  shows "\<exists>s'. destroy this s = Some (Done () s') \<and> shape s' \<sigma> \<and> objs s' this = None \<and>
              allocs s' = allocs s \<and> next_obj s' = next_obj s \<and>
              (\<forall>l. l \<noteq> this \<longrightarrow> objs s' l = objs s l)"
proof -
  from Clear_shape[OF sh th] obtain s1 L1 where s1:
    "Clear this s = Some (Done () s1)" "shape s1 (\<sigma>(this := []))" "objs s1 this = Some L1"
    "allocs s1 = allocs s" "next_obj s1 = next_obj s" "\<forall>l. l \<noteq> this \<longrightarrow> objs s1 l = objs s l"
    by blast
  define s' where "s' = release_object this s1"
  from s1(1) have "destroy this s = Some (Done () s')" by (simp add: destroy_def s'_def)
  moreover from s1(2) have "shape s' (\<sigma>(this := []))" unfolding s'_def
    by (rule release_object_shape)
  then have "shape s' ((\<sigma>(this := []))(this := \<sigma> this))"
    by (rule shape_dead_update) (simp add: s'_def release_object_def)
  then have "shape s' \<sigma>" by simp
  moreover have "objs s' this = None" "allocs s' = allocs s" "next_obj s' = next_obj s"
    "\<forall>l. l \<noteq> this \<longrightarrow> objs s' l = objs s l"
    using s1 by (simp_all add: s'_def release_object_def)
  ultimately show ?thesis by blast
qed

lemma shape_cong:
  assumes "shape s \<sigma>" "\<And>l. objs s l \<noteq> None \<Longrightarrow> \<sigma>' l = \<sigma> l"
  shows "shape s \<sigma>'"
  using assms unfolding shape_def by (metis option.distinct(1))

lemma models_from_sizes:
  assumes "shape s \<sigma>" "\<And>l k. size_of s l = Some k \<Longrightarrow> k = length (\<sigma> l)"
  shows "models s \<sigma>"
  using assms by (simp add: models_def sizes_ok_size_of)

lemma models_size_of: "models s \<sigma> \<Longrightarrow> size_of s l = Some k \<Longrightarrow> k = length (\<sigma> l)"
  by (simp add: models_def sizes_ok_size_of)

lemma size_of_upd:
  "size_of (s\<lparr>objs := (objs s)(t \<mapsto> X)\<rparr>) l = (if l = t then Some (m_size X) else size_of s l)"
  by (simp add: size_of_def)

lemma empty_abs:
  assumes "shape s \<sigma>" "objs s l = Some L" "head_next_node L = None"
  shows "\<sigma> l = []"
proof -
  from assms(1,2) have "cells (heap s) (head_next_node L) (\<sigma> l)" by (rule shapeD_cells)
  with assms(3) show ?thesis by (cases "\<sigma> l") auto
qed

text \<open>
  The state in which the body of the copy constructor starts its loop, and what the
  loop does from there.
\<close>

lemma copy_body_start:
  assumes sh: "shape s \<sigma>" and th: "objs s this = Some L" and ot: "objs s other = Some Lo"
    and n: "new_object s = (t, s1)"
  shows "t \<noteq> this" and "t \<noteq> other" and "shape s1 (\<sigma>(t := []))"
    and "objs s1 this = Some L" and "objs s1 other = Some Lo"
    and "objs s1 t = Some \<lparr>head_next_node = None, m_size = 0\<rparr>"
    and "cbegin other s1 = Inr \<lparr>m_node = first_of (\<sigma> other)\<rparr>"
    and "\<forall>l. size_of s1 l = (if l = t then Some 0 else size_of s l)"
proof -
  note no = new_object_shape[OF sh n]
  from no(2) th ot show ne: "t \<noteq> this" "t \<noteq> other" by auto
  from no(3) show "shape s1 (\<sigma>(t := []))" .
  from no(5) ne th ot show o1: "objs s1 this = Some L" "objs s1 other = Some Lo" by simp_all
  from no(4) show "objs s1 t = Some \<lparr>head_next_node = None, m_size = 0\<rparr>" .
  from sh ot have "cells (heap s) (head_next_node Lo) (\<sigma> other)" by (rule shapeD_cells)
  then have "head_next_node Lo = first_of (\<sigma> other)" by (rule cells_first)
  with o1(2) show "cbegin other s1 = Inr \<lparr>m_node = first_of (\<sigma> other)\<rparr>"
    by (simp add: cbegin_def)
  from no(4,5) show "\<forall>l. size_of s1 l = (if l = t then Some 0 else size_of s l)"
    by (simp add: size_of_def)
qed

lemma copy_body_models:
  fixes s :: "'a state"
  assumes m: "models s \<sigma>" and th: "objs s this = Some L"
    and hL: "head_next_node L = None" and zL: "m_size L = 0"
    and ot: "objs s other = Some Lo" and ne: "this \<noteq> other"
    and al: "allocs s = map Some as @ rest" and len: "length as = length (\<sigma> other)"
  shows "\<exists>s'. copy_body this other s = Some (Done () s') \<and>
              models s' (\<sigma>(this := zip as (contents (\<sigma> other)))) \<and>
              allocs s' = rest \<and> next_obj s' = Suc (next_obj s) \<and>
              (\<forall>l. live s' l = live s l)"
proof -
  from m have sh: "shape s \<sigma>" by (rule models_shape)
  let ?n = "length (\<sigma> other)"
  let ?new = "zip as (contents (\<sigma> other))"
  obtain t s1 where n: "new_object s = (t, s1)" by (cases "new_object s")
  note no = new_object_shape[OF sh n]
  note st = copy_body_start[OF sh th ot n]
  from sh th hL have e0: "\<sigma> this = []" by (rule empty_abs)
  \<comment> \<open>the loop\<close>
  have so1: "(\<sigma>(t := [])) other = [] @ \<sigma> other" using st(2) by simp
  have st1: "(\<sigma>(t := [])) t = []" by simp
  from al no(7) have al1: "allocs s1 = map Some as @ rest" by simp
  have e2: "\<sigma>(t := ?new) = (\<sigma>(t := []))(t := [] @ ?new)" by simp
  from zL have k0: "m_size L = length ([] :: (addr \<times> 'a) list)" by simp
  from copy_loop_shape[OF st(3) st(4) st(6) st(5) st(2) so1 st1 al1 len e2 k0]
  obtain s2 r where s2:
    "copy_loop this other \<lparr>m_node = first_of (\<sigma> other)\<rparr>
       \<lparr>m_node = Some (pos_after t ([] :: (addr \<times> 'a) list))\<rparr> s1 = Some (Done r s2)"
    "shape s2 (\<sigma>(t := ?new))" "allocs s2 = rest" "next_obj s2 = next_obj s1"
    "\<forall>l. size_of s2 l = (if l = this then Some (m_size L + ?n) else size_of s1 l)"
    by blast
  from s2(1) have loop: "copy_loop this other \<lparr>m_node = first_of (\<sigma> other)\<rparr> (cbefore_begin t) s1
       = Some (Done r s2)"
    by (simp add: pos_after_def cbefore_begin_def)
  have z2: "\<forall>l. size_of s2 l = (if l = this then Some ?n else if l = t then Some 0 else size_of s l)"
    using s2(5) st(8) zL by simp
  \<comment> \<open>\<^verbatim>\<open>temp.size_ = other.size_\<close>\<close>
  from m ot have "m_size Lo = ?n" by (rule modelsD_size)
  with ot have "size_of s other = Some ?n" by (simp add: size_of_def)
  with z2 ne st(2) have "size_of s2 other = Some ?n" by simp
  then have gs: "GetSize other s2 = Inr ?n" by (auto simp: size_of_def GetSize_def)
  from z2 st(1) have "size_of s2 t = Some 0" by simp
  then obtain T2 where T2: "objs s2 t = Some T2" using size_of_Some by blast
  define s3 where "s3 = s2\<lparr>objs := (objs s2)(t \<mapsto> T2\<lparr>m_size := ?n\<rparr>)\<rparr>"
  from T2 have ss: "set_size t ?n s2 = Some s3" unfolding s3_def by (rule set_size_live)
  from s2(2) T2 have sh3: "shape s3 (\<sigma>(t := ?new))" unfolding s3_def by (rule shape_resize)
  have z3: "\<forall>l. size_of s3 l = (if l = this \<or> l = t then Some ?n else size_of s l)"
    using z2 by (simp add: s3_def size_of_upd)
  \<comment> \<open>\<^verbatim>\<open>Swap(temp)\<close>\<close>
  from z3 obtain L3 T3 where o3: "objs s3 this = Some L3" "objs s3 t = Some T3"
    using size_of_Some by (metis (full_types))
  have e4: "\<sigma>(t := [], this := ?new)
            = (\<sigma>(t := ?new))(this := (\<sigma>(t := ?new)) t, t := (\<sigma>(t := ?new)) this)"
    using st(1) e0 by auto
  from Swap_shape[OF sh3 o3 e4] obtain s4 where s4:
    "Swap this t s3 = Done () s4" "shape s4 (\<sigma>(t := [], this := ?new))"
    "allocs s4 = allocs s3" "next_obj s4 = next_obj s3"
    "\<forall>l. size_of s4 l = (if l = this then size_of s3 t else if l = t then size_of s3 this
                          else size_of s3 l)"
    by blast
  have z4: "\<forall>l. size_of s4 l = (if l = this \<or> l = t then Some ?n else size_of s l)"
    using s4(5) z3 by simp
  \<comment> \<open>the end of \<open>temp\<close>\<close>
  from z4 obtain T4 where T4: "objs s4 t = Some T4" using size_of_Some by (metis (full_types))
  from destroy_shape[OF s4(2) T4] obtain s5 where s5:
    "destroy t s4 = Some (Done () s5)" "shape s5 (\<sigma>(t := [], this := ?new))"
    "objs s5 t = None" "allocs s5 = allocs s4" "next_obj s5 = next_obj s4"
    "\<forall>l. l \<noteq> t \<longrightarrow> objs s5 l = objs s4 l"
    by blast
  have z5: "\<forall>l. size_of s5 l = (if l = t then None else if l = this then Some ?n else size_of s l)"
    using s5(3,6) z4 by (simp add: size_of_def)
  have run: "copy_body this other s = Some (Done () s5)"
    using th hL zL n st(7) loop gs ss s4(1) s5(1) by (simp add: copy_body_def)
  have "shape s5 (\<sigma>(this := ?new))"
    using s5(2)
  proof (rule shape_cong)
    fix l assume "objs s5 l \<noteq> None"
    with s5(3) have "l \<noteq> t" by auto
    then show "(\<sigma>(this := ?new)) l = (\<sigma>(t := [], this := ?new)) l" by simp
  qed
  then have "models s5 (\<sigma>(this := ?new))"
  proof (rule models_from_sizes)
    fix l k assume k: "size_of s5 l = Some k"
    with z5 have lt: "l \<noteq> t" by auto
    show "k = length ((\<sigma>(this := ?new)) l)"
    proof (cases "l = this")
      case True
      with k z5 lt len show ?thesis by (simp add: contents_def)
    next
      case False
      with k z5 lt have "size_of s l = Some k" by simp
      with m have "k = length (\<sigma> l)" by (rule models_size_of)
      with False show ?thesis by simp
    qed
  qed
  moreover have "\<forall>l. live s5 l = live s l"
  proof
    fix l
    from no(2) have "size_of s t = None" by (simp add: size_of_def)
    moreover from th have "size_of s this \<noteq> None" by (simp add: size_of_def)
    ultimately show "live s5 l = live s l" using z5 by (simp add: live_size_of)
  qed
  moreover have "allocs s5 = rest" "next_obj s5 = Suc (next_obj s)"
    using s5(4,5) s4(3,4) s2(3,4) no(8) by (simp_all add: s3_def)
  ultimately show ?thesis using run by blast
qed

lemma oracle_cases:
  fixes xs :: "addr option list"
  shows "(\<exists>as rest. xs = map Some as @ rest \<and> length as = n) \<or>
         (\<exists>as rest. xs = map Some as @ rest \<and> length as < n \<and> (rest = [] \<or> (\<exists>r. rest = None # r)))"
proof (induction xs arbitrary: n)
  case Nil
  then show ?case by (cases n) auto
next
  case (Cons x xs)
  show ?case
  proof (cases n)
    case 0
    then show ?thesis by auto
  next
    case (Suc k)
    show ?thesis
    proof (cases x)
      case None
      have "x # xs = map Some [] @ (None # xs) \<and> length ([] :: addr list) < n" using None Suc by simp
      then show ?thesis by blast
    next
      case (Some a)
      from Cons.IH[of k] show ?thesis
      proof
        assume "\<exists>as rest. xs = map Some as @ rest \<and> length as = k"
        then obtain as rest where "xs = map Some as @ rest" "length as = k" by blast
        with Some Suc have "x # xs = map Some (a # as) @ rest \<and> length (a # as) = n" by simp
        then show ?thesis by blast
      next
        assume "\<exists>as rest. xs = map Some as @ rest \<and> length as < k \<and>
                  (rest = [] \<or> (\<exists>r. rest = None # r))"
        then obtain as rest where "xs = map Some as @ rest" "length as < k"
          "rest = [] \<or> (\<exists>r. rest = None # r)" by blast
        with Some Suc have "x # xs = map Some (a # as) @ rest \<and> length (a # as) < n \<and>
            (rest = [] \<or> (\<exists>r. rest = None # r))" by simp
        then show ?thesis by blast
      qed
    qed
  qed
qed

lemma models_cong:
  assumes "models s \<sigma>" "\<And>l. live s l \<Longrightarrow> \<sigma>' l = \<sigma> l"
  shows "models s \<sigma>'"
proof -
  from assms(1) have "shape s \<sigma>" by (rule models_shape)
  then have "shape s \<sigma>'" using assms(2) by (rule shape_cong) (simp add: live_def)
  then show ?thesis
  proof (rule models_from_sizes)
    fix l k assume k: "size_of s l = Some k"
    with assms(1) have "k = length (\<sigma> l)" by (rule models_size_of)
    moreover from k have "live s l" by (simp add: live_size_of)
    ultimately show "k = length (\<sigma>' l)" using assms(2) by simp
  qed
qed

lemma copy_body_not_done:
  fixes s :: "'a state"
  assumes m: "models s \<sigma>" and th: "objs s this = Some L"
    and ot: "objs s other = Some Lo" and ne: "this \<noteq> other"
    and al: "allocs s = map Some as @ rest" and len: "length as < length (\<sigma> other)"
    and f: "rest = [] \<or> (\<exists>r. rest = None # r)"
  shows "copy_body this other s \<noteq> Some (Done u s')"
proof (cases "m_size L = 0 \<and> head_next_node L = None")
  case False
  with th show ?thesis by (auto simp: copy_body_def)
next
  case True
  from m have sh: "shape s \<sigma>" by (rule models_shape)
  obtain t s1 where n: "new_object s = (t, s1)" by (cases "new_object s")
  note no = new_object_shape[OF sh n]
  note st = copy_body_start[OF sh th ot n]
  have so1: "(\<sigma>(t := [])) other = [] @ \<sigma> other" using st(2) by simp
  have st1: "(\<sigma>(t := [])) t = []" by simp
  from al no(7) have al1: "allocs s1 = map Some as @ rest" by simp
  from copy_loop_throw[OF st(3) st(4) st(6) st(5) st(2) so1 st1 al1 len f]
  obtain s2 where
    "copy_loop this other \<lparr>m_node = first_of (\<sigma> other)\<rparr>
       \<lparr>m_node = Some (pos_after t ([] :: (addr \<times> 'a) list))\<rparr> s1 = Some (Throw s2)"
    by blast
  then have "copy_loop this other \<lparr>m_node = first_of (\<sigma> other)\<rparr> (cbefore_begin t) s1
       = Some (Throw s2)"
    by (simp add: pos_after_def cbefore_begin_def)
  with th True n st(7) show ?thesis
    by (simp add: copy_body_def split: option.splits outcome.splits)
qed

lemma SingleLinkedList_copy_models:
  assumes m: "models s \<sigma>" and ot: "objs s other = Some Lo"
    and al: "allocs s = map Some as @ rest" and len: "length as = length (\<sigma> other)"
  shows "\<exists>s'. SingleLinkedList_copy other s = Some (Done (next_obj s) s') \<and>
              \<not> live s (next_obj s) \<and>
              models s' (\<sigma>(next_obj s := zip as (contents (\<sigma> other)))) \<and>
              allocs s' = rest \<and> next_obj s' = Suc (Suc (next_obj s)) \<and>
              (\<forall>l. live s' l = (l = next_obj s \<or> live s l))"
proof -
  obtain B s1 where n: "new_object s = (B, s1)" by (cases "new_object s")
  note no = new_object_models[OF m n]
  from no(2) ot have ne: "B \<noteq> other" by (auto simp: live_def)
  from no(5) ot have "live s1 other" by (simp add: live_def)
  then obtain Lo1 where o1: "objs s1 other = Some Lo1" by (auto simp: live_def)
  from ne have so: "(\<sigma>(B := [])) other = \<sigma> other" by simp
  from al no(7) have al1: "allocs s1 = map Some as @ rest" by simp
  from len so have len1: "length as = length ((\<sigma>(B := [])) other)" by simp
  have h0: "head_next_node \<lparr>head_next_node = None, m_size = 0\<rparr> = None"
    and z0: "m_size \<lparr>head_next_node = None, m_size = 0\<rparr> = 0" by simp_all
  from copy_body_models[OF no(3) no(4) h0 z0 o1 ne al1 len1] obtain s2 where s2:
    "copy_body B other s1 = Some (Done () s2)"
    "models s2 ((\<sigma>(B := []))(B := zip as (contents ((\<sigma>(B := [])) other))))"
    "allocs s2 = rest" "next_obj s2 = Suc (next_obj s1)" "\<forall>l. live s2 l = live s1 l"
    by blast
  from s2(2) have "models s2 (\<sigma>(B := zip as (contents (\<sigma> other))))"
    by (simp only: so fun_upd_upd)
  moreover from n s2(1) have "SingleLinkedList_copy other s = Some (Done B s2)"
    by (simp add: SingleLinkedList_copy_def)
  moreover from s2(5) no(5) have "\<forall>l. live s2 l = (l = B \<or> live s l)" by simp
  ultimately show ?thesis using no(1,2,8) s2(3,4) by simp
qed

lemma SingleLinkedList_copy_not_done:
  assumes m: "models s \<sigma>" and ot: "objs s other = Some Lo"
    and al: "allocs s = map Some as @ rest" and len: "length as < length (\<sigma> other)"
    and f: "rest = [] \<or> (\<exists>r. rest = None # r)"
  shows "SingleLinkedList_copy other s \<noteq> Some (Done u s')"
proof -
  obtain B s1 where n: "new_object s = (B, s1)" by (cases "new_object s")
  note no = new_object_models[OF m n]
  from no(2) ot have ne: "B \<noteq> other" by (auto simp: live_def)
  from no(5) ot have "live s1 other" by (simp add: live_def)
  then obtain Lo1 where o1: "objs s1 other = Some Lo1" by (auto simp: live_def)
  from ne have so: "(\<sigma>(B := [])) other = \<sigma> other" by simp
  from al no(7) have al1: "allocs s1 = map Some as @ rest" by simp
  from len so have len1: "length as < length ((\<sigma>(B := [])) other)" by simp
  from copy_body_not_done[OF no(3) no(4) o1 ne al1 len1 f]
  have "\<And>v s''. copy_body B other s1 \<noteq> Some (Done v s'')" .
  with n show ?thesis
    by (simp add: SingleLinkedList_copy_def split: option.splits outcome.splits)
qed

lemma Swap_models:
  assumes m: "models s \<sigma>" and a: "objs s A = Some LA" and b: "objs s B = Some LB"
  shows "\<exists>s'. Swap A B s = Done () s' \<and> models s' (\<sigma>(A := \<sigma> B, B := \<sigma> A)) \<and>
              allocs s' = allocs s \<and> next_obj s' = next_obj s \<and> heap s' = heap s \<and>
              (\<forall>l. live s' l = live s l)"
proof -
  from m have sh: "shape s \<sigma>" by (rule models_shape)
  from Swap_shape[OF sh a b refl] obtain s' where s':
    "Swap A B s = Done () s'" "shape s' (\<sigma>(A := \<sigma> B, B := \<sigma> A))"
    "allocs s' = allocs s" "next_obj s' = next_obj s" "heap s' = heap s"
    "\<forall>l. size_of s' l = (if l = A then size_of s B else if l = B then size_of s A
                          else size_of s l)"
    by blast
  from s'(2) have "models s' (\<sigma>(A := \<sigma> B, B := \<sigma> A))"
  proof (rule models_from_sizes)
    fix l k assume "size_of s' l = Some k"
    with s'(6) have "(if l = A then size_of s B else if l = B then size_of s A else size_of s l)
        = Some k" by simp
    then show "k = length ((\<sigma>(A := \<sigma> B, B := \<sigma> A)) l)"
      using models_size_of[OF m] by (auto split: if_splits)
  qed
  moreover from s'(6) a b have "\<forall>l. live s' l = live s l"
    by (simp add: live_size_of size_of_def)
  ultimately show ?thesis using s' by blast
qed

lemma destroy_models:
  assumes m: "models s \<sigma>" and th: "objs s this = Some L"
  shows "\<exists>s'. destroy this s = Some (Done () s') \<and> models s' \<sigma> \<and>
              allocs s' = allocs s \<and> next_obj s' = next_obj s \<and>
              (\<forall>l. live s' l = (l \<noteq> this \<and> live s l))"
proof -
  from m have sh: "shape s \<sigma>" by (rule models_shape)
  from destroy_shape[OF sh th] obtain s' where s':
    "destroy this s = Some (Done () s')" "shape s' \<sigma>" "objs s' this = None"
    "allocs s' = allocs s" "next_obj s' = next_obj s" "\<forall>l. l \<noteq> this \<longrightarrow> objs s' l = objs s l"
    by blast
  from s'(2) have "models s' \<sigma>"
  proof (rule models_from_sizes)
    fix l k assume k: "size_of s' l = Some k"
    with s'(3) have "l \<noteq> this" by (auto simp: size_of_def)
    with s'(6) k have "size_of s l = Some k" by (simp add: size_of_def)
    with m show "k = length (\<sigma> l)" by (rule models_size_of)
  qed
  moreover have "\<forall>l. live s' l = (l \<noteq> this \<and> live s l)"
  proof
    fix l
    show "live s' l = (l \<noteq> this \<and> live s l)"
    proof (cases "l = this")
      case True
      with s'(3) show ?thesis by (simp add: live_def)
    next
      case False
      with s'(6) have "objs s' l = objs s l" by blast
      with False show ?thesis by (simp add: live_def)
    qed
  qed
  ultimately show ?thesis using s' by blast
qed

lemma assign_models:
  assumes m: "models s \<sigma>" and th: "objs s this = Some L" and ot: "objs s rhs = Some R"
    and ne: "this \<noteq> rhs"
    and al: "allocs s = map Some as @ rest" and len: "length as = length (\<sigma> rhs)"
  shows "\<exists>s'. assign this rhs s = Some (Done () s') \<and>
              models s' (\<sigma>(this := zip as (contents (\<sigma> rhs)))) \<and>
              allocs s' = rest \<and> (\<forall>l. live s' l = live s l)"
proof -
  let ?B = "next_obj s"
  let ?new = "zip as (contents (\<sigma> rhs))"
  from SingleLinkedList_copy_models[OF m ot al len] obtain s1 where s1:
    "SingleLinkedList_copy rhs s = Some (Done ?B s1)" "\<not> live s ?B"
    "models s1 (\<sigma>(?B := ?new))" "allocs s1 = rest" "\<forall>l. live s1 l = (l = ?B \<or> live s l)"
    by blast
  from s1(2) th have bt: "?B \<noteq> this" by (auto simp: live_def)
  from s1(5) th obtain L1 B1 where o1: "objs s1 this = Some L1" "objs s1 ?B = Some B1"
    by (auto simp: live_def) (metis option.exhaust)
  from Swap_models[OF s1(3) o1] obtain s2 where s2:
    "Swap this ?B s1 = Done () s2"
    "models s2 ((\<sigma>(?B := ?new))(this := (\<sigma>(?B := ?new)) ?B, ?B := (\<sigma>(?B := ?new)) this))"
    "allocs s2 = allocs s1" "\<forall>l. live s2 l = live s1 l"
    by blast
  from s2(4) s1(5) obtain B2 where o2: "objs s2 ?B = Some B2" by (auto simp: live_def)
  from destroy_models[OF s2(2) o2] obtain s3 where s3:
    "destroy ?B s2 = Some (Done () s3)"
    "models s3 ((\<sigma>(?B := ?new))(this := (\<sigma>(?B := ?new)) ?B, ?B := (\<sigma>(?B := ?new)) this))"
    "allocs s3 = allocs s2" "\<forall>l. live s3 l = (l \<noteq> ?B \<and> live s2 l)"
    by blast
  from s3(2) have "models s3 (\<sigma>(this := ?new))"
  proof (rule models_cong)
    fix l assume "live s3 l"
    with s3(4) have "l \<noteq> ?B" by simp
    with bt show "(\<sigma>(this := ?new)) l
        = ((\<sigma>(?B := ?new))(this := (\<sigma>(?B := ?new)) ?B, ?B := (\<sigma>(?B := ?new)) this)) l"
      by simp
  qed
  moreover from ne s1(1) s2(1) s3(1) have "assign this rhs s = Some (Done () s3)"
    by (simp add: assign_def)
  moreover from s3(4) s2(4) s1(5) s1(2) have "\<forall>l. live s3 l = live s l" by auto
  ultimately show ?thesis using s3(3) s2(3) s1(4) by simp
qed

lemma assign_not_done:
  assumes m: "models s \<sigma>" and ot: "objs s rhs = Some R" and ne: "this \<noteq> rhs"
    and al: "allocs s = map Some as @ rest" and len: "length as < length (\<sigma> rhs)"
    and f: "rest = [] \<or> (\<exists>r. rest = None # r)"
  shows "assign this rhs s \<noteq> Some (Done u s')"
proof -
  from SingleLinkedList_copy_not_done[OF m ot al len f]
  have "\<And>v s''. SingleLinkedList_copy rhs s \<noteq> Some (Done v s'')" .
  with ne show ?thesis
    by (simp add: assign_def split: option.splits outcome.splits)
qed

subsection \<open>Runs of public operations\<close>

lemma Clear_models:
  assumes m: "models s \<sigma>" and th: "objs s this = Some L"
  shows "\<exists>s'. Clear this s = Some (Done () s') \<and> models s' (\<sigma>(this := [])) \<and>
              allocs s' = allocs s \<and> next_obj s' = next_obj s \<and> (\<forall>l. live s' l = live s l)"
proof -
  from m have sh: "shape s \<sigma>" by (rule models_shape)
  from Clear_shape[OF sh th] obtain s' L' where s':
    "Clear this s = Some (Done () s')" "shape s' (\<sigma>(this := []))"
    "objs s' this = Some L'" "m_size L' = 0"
    "allocs s' = allocs s" "next_obj s' = next_obj s" "\<forall>l. l \<noteq> this \<longrightarrow> objs s' l = objs s l"
    by blast
  from s'(2) have "models s' (\<sigma>(this := []))"
  proof (rule models_from_sizes)
    fix l k assume k: "size_of s' l = Some k"
    show "k = length ((\<sigma>(this := [])) l)"
    proof (cases "l = this")
      case True
      with k s'(3,4) show ?thesis by (simp add: size_of_def)
    next
      case False
      with s'(7) k have "size_of s l = Some k" by (simp add: size_of_def)
      with m have "k = length (\<sigma> l)" by (rule models_size_of)
      with False show ?thesis by simp
    qed
  qed
  moreover have "\<forall>l. live s' l = live s l"
  proof
    fix l
    show "live s' l = live s l"
    proof (cases "l = this")
      case True
      with s'(3) th show ?thesis by (simp add: live_def)
    next
      case False
      with s'(7) show ?thesis by (simp add: live_def)
    qed
  qed
  ultimately show ?thesis using s' by blast
qed

lemma PopFront_models:
  assumes m: "models s \<sigma>" and th: "objs s this = Some L" and sp: "\<sigma> this = (c, w) # ys"
  shows "\<exists>s'. PopFront this s = Done () s' \<and> models s' (\<sigma>(this := ys)) \<and>
              allocs s' = allocs s \<and> next_obj s' = next_obj s \<and> (\<forall>l. live s' l = live s l)"
proof -
  from sp have sp': "\<sigma> this = [] @ (c, w) # ys" by simp
  from m th sp have sz: "m_size L \<noteq> 0" using modelsD_size by fastforce
  from EraseAfter_models[OF m th sp'] obtain s' where s':
    "EraseAfter this \<lparr>m_node = Some (Sentinel this)\<rparr> s = Done \<lparr>m_node = first_of ys\<rparr> s'"
    "models s' (\<sigma>(this := ys))" "allocs s' = allocs s" "next_obj s' = next_obj s"
    "\<forall>l. live s' l = live s l"
    by (auto simp: pos_after_def)
  from s'(1) PopFront_as_EraseAfter[OF th sz] have "PopFront this s = Done () s'"
    by (metis map_result.simps(1))
  with s' show ?thesis by blast
qed

lemma PopFront_empty:
  assumes "models s \<sigma>" "objs s this = Some L" "\<sigma> this = []"
  shows "PopFront this s = Abort AssertionFailed"
proof -
  from assms have "m_size L = 0" using modelsD_size by fastforce
  with assms(2) show ?thesis by (simp add: PopFront_def)
qed

lemma EraseAfter_at_end:
  assumes "models s \<sigma>" "objs s this = Some L" "\<sigma> this = xs"
  shows "EraseAfter this \<lparr>m_node = Some (pos_after this xs)\<rparr> s = Abort InvalidPointer"
proof (cases "xs = []")
  case True
  with assms have "cells (heap s) (head_next_node L) []" using modelsD_cells by fastforce
  then have "head_next_node L = None" by simp
  with assms(2) True show ?thesis by (simp add: EraseAfter_def pos_after_def get_next_def)
next
  case False
  from assms have "cells (heap s) (head_next_node L) (xs @ [])" using modelsD_cells by fastforce
  from cells_last_next[OF this False] obtain n where "heap s (fst (last xs)) = Some n"
    "cells (heap s) (next_node n) []" by blast
  then have "heap s (fst (last xs)) = Some n" "next_node n = None" by simp_all
  with False show ?thesis by (simp add: EraseAfter_def pos_after_def get_next_def)
qed

lemma valid_pos_split:
  assumes "models s \<sigma>" "valid_pos s l pos"
  shows "live s l \<and> (\<exists>xs ys. \<sigma> l = xs @ ys \<and> pos = \<lparr>m_node = Some (pos_after l xs)\<rparr>)"
proof -
  from assms(2) obtain cs where cs: "list_at s l cs"
    "m_node pos = Some (Sentinel l) \<or> (\<exists>a \<in> set (map fst cs). m_node pos = Some (Cell a))"
    by (auto simp: valid_pos_def)
  from cs(1) obtain L where L: "objs s l = Some L" "cells (heap s) (head_next_node L) cs"
    using list_atD by blast
  then have lv: "live s l" by (simp add: live_def)
  from assms(1) L(1) have "cells (heap s) (head_next_node L) (\<sigma> l)" by (rule modelsD_cells)
  with L(2) have e: "cs = \<sigma> l" by (rule cells_unique)
  from cs(2) show ?thesis
  proof
    assume "m_node pos = Some (Sentinel l)"
    then have "\<sigma> l = [] @ \<sigma> l \<and> pos = \<lparr>m_node = Some (pos_after l ([] :: (addr \<times> 'a) list))\<rparr>"
      by (simp add: pos_after_def)
    with lv show ?thesis by blast
  next
    assume "\<exists>a \<in> set (map fst cs). m_node pos = Some (Cell a)"
    then obtain a v where a: "(a, v) \<in> set (\<sigma> l)" "m_node pos = Some (Cell a)"
      using e by auto
    then obtain pf sf where "\<sigma> l = pf @ (a, v) # sf" by (meson split_list)
    with a(2) have "\<sigma> l = (pf @ [(a, v)]) @ sf \<and> pos = \<lparr>m_node = Some (pos_after l (pf @ [(a, v)]))\<rparr>"
      by (simp add: pos_after_def)
    with lv show ?thesis by blast
  qed
qed

lemma keepsI:
  "models s' \<sigma>' \<Longrightarrow> (\<And>l. live s l \<Longrightarrow> l \<notin> T \<Longrightarrow> live s' l \<and> \<sigma>' l = \<sigma> l) \<Longrightarrow> keeps s \<sigma> T s'"
  unfolding keeps_def by blast

lemma oracle_split:
  fixes xs :: "addr option list"
  obtains (enough) as rest where "xs = map Some as @ rest" "length as = n"
    | (short) as rest where "xs = map Some as @ rest" "length as < n"
        "rest = [] \<or> (\<exists>r. rest = None # r)"
  using oracle_cases[of xs n] by blast

lemma exec_default:
  assumes m: "models s \<sigma>" and e: "exec Op_default s = Some (Done r s')"
  shows "keeps s \<sigma> {} s'"
proof -
  obtain t s1 where n: "new_object s = (t, s1)" by (cases "new_object s")
  note no = new_object_models[OF m n]
  from e n have s': "s' = s1" by (simp add: SingleLinkedList_default_def)
  from no(3) show ?thesis unfolding s'
  proof (rule keepsI)
    fix l assume "live s l"
    with no(2,5) show "live s1 l \<and> (\<sigma>(t := [])) l = \<sigma> l" by auto
  qed
qed

lemma exec_init:
  assumes m: "models s \<sigma>" and e: "exec (Op_init vs) s = Some (Done r s')"
  shows "keeps s \<sigma> {} s'"
proof -
  show ?thesis
  proof (rule oracle_split[of "allocs s" "length vs"])
    fix as rest assume "allocs s = map Some as @ rest" "length as = length vs"
    from SingleLinkedList_init_models[OF m this] obtain s0 where s0:
      "SingleLinkedList_init vs s = Done (next_obj s) s0" "\<not> live s (next_obj s)"
      "models s0 (\<sigma>(next_obj s := zip (rev as) vs))"
      "\<forall>l. live s0 l = (l = next_obj s \<or> live s l)"
      by blast
    from e s0(1) have s': "s' = s0" by simp
    from s0(3) show ?thesis unfolding s'
    proof (rule keepsI)
      fix l assume "live s l"
      with s0(2,4) show "live s0 l \<and> (\<sigma>(next_obj s := zip (rev as) vs)) l = \<sigma> l" by auto
    qed
  next
    fix as rest assume "allocs s = map Some as @ rest" "length as < length vs"
      "rest = [] \<or> (\<exists>r. rest = None # r)"
    from SingleLinkedList_init_not_done[OF m this] e show ?thesis
      by (cases "SingleLinkedList_init vs s") auto
  qed
qed

lemma exec_copy:
  assumes m: "models s \<sigma>" and p: "live s other" and e: "exec (Op_copy other) s = Some (Done r s')"
  shows "keeps s \<sigma> {} s'"
proof -
  from p obtain Lo where ot: "objs s other = Some Lo" by (auto simp: live_def)
  from e obtain u where c: "SingleLinkedList_copy other s = Some (Done u s')"
    by (cases "SingleLinkedList_copy other s") (auto elim: map_result.elims)
  show ?thesis
  proof (rule oracle_split[of "allocs s" "length (\<sigma> other)"])
    fix as rest assume "allocs s = map Some as @ rest" "length as = length (\<sigma> other)"
    from SingleLinkedList_copy_models[OF m ot this] obtain s0 where s0:
      "SingleLinkedList_copy other s = Some (Done (next_obj s) s0)" "\<not> live s (next_obj s)"
      "models s0 (\<sigma>(next_obj s := zip as (contents (\<sigma> other))))"
      "\<forall>l. live s0 l = (l = next_obj s \<or> live s l)"
      by blast
    from c s0(1) have s': "s' = s0" by simp
    from s0(3) show ?thesis unfolding s'
    proof (rule keepsI)
      fix l assume "live s l"
      with s0(2,4) show "live s0 l \<and> (\<sigma>(next_obj s := zip as (contents (\<sigma> other)))) l = \<sigma> l"
        by auto
    qed
  next
    fix as rest assume "allocs s = map Some as @ rest" "length as < length (\<sigma> other)"
      "rest = [] \<or> (\<exists>r. rest = None # r)"
    from SingleLinkedList_copy_not_done[OF m ot this] c show ?thesis by blast
  qed
qed

lemma oracle_one:
  fixes xs :: "addr option list"
  shows "(\<exists>a rest. xs = Some a # rest) \<or> xs = [] \<or> (\<exists>rest. xs = None # rest)"
  by (cases xs) auto

lemma exec_PushFront:
  assumes m: "models s \<sigma>" and p: "live s l" and e: "exec (Op_PushFront l v) s = Some (Done r s')"
  shows "keeps s \<sigma> {l} s'"
proof -
  from p obtain L where L: "objs s l = Some L" by (auto simp: live_def)
  from oracle_one[of "allocs s"] show ?thesis
  proof (elim disjE exE)
    fix a rest assume "allocs s = Some a # rest"
    from PushFront_models[OF m L this, of v] obtain s0 where s0:
      "PushFront l v s = Done () s0" "models s0 (\<sigma>(l := (a, v) # \<sigma> l))"
      "\<forall>k. live s0 k = live s k" by blast
    from e s0(1) have s': "s' = s0" by simp
    from s0(2) show ?thesis unfolding s'
    proof (rule keepsI)
      fix k assume "live s k" "k \<notin> {l}"
      with s0(3) show "live s0 k \<and> (\<sigma>(l := (a, v) # \<sigma> l)) k = \<sigma> k" by simp
    qed
  next
    assume "allocs s = []"
    then have "allocs s = [] \<or> (\<exists>rest. allocs s = None # rest)" by simp
    from PushFront_fail[OF L this, of v] e show ?thesis by auto
  next
    fix rest assume "allocs s = None # rest"
    then have "allocs s = [] \<or> (\<exists>rest. allocs s = None # rest)" by simp
    from PushFront_fail[OF L this, of v] e show ?thesis by auto
  qed
qed

lemma exec_PopFront:
  assumes m: "models s \<sigma>" and p: "live s l" and e: "exec (Op_PopFront l) s = Some (Done r s')"
  shows "keeps s \<sigma> {l} s'"
proof -
  from p obtain L where L: "objs s l = Some L" by (auto simp: live_def)
  show ?thesis
  proof (cases "\<sigma> l")
    case Nil
    from PopFront_empty[OF m L Nil] e show ?thesis by simp
  next
    case (Cons x ys)
    obtain c w where "x = (c, w)" by (cases x)
    with Cons have "\<sigma> l = (c, w) # ys" by simp
    from PopFront_models[OF m L this] obtain s0 where s0:
      "PopFront l s = Done () s0" "models s0 (\<sigma>(l := ys))" "\<forall>k. live s0 k = live s k" by blast
    from e s0(1) have s': "s' = s0" by simp
    from s0(2) show ?thesis unfolding s'
    proof (rule keepsI)
      fix k assume "live s k" "k \<notin> {l}"
      with s0(3) show "live s0 k \<and> (\<sigma>(l := ys)) k = \<sigma> k" by simp
    qed
  qed
qed

lemma exec_InsertAfter:
  assumes m: "models s \<sigma>" and p: "valid_pos s l pos"
    and e: "exec (Op_InsertAfter l pos v) s = Some (Done r s')"
  shows "keeps s \<sigma> {l} s'"
proof -
  from valid_pos_split[OF m p] obtain xs ys where lv: "live s l" and sp: "\<sigma> l = xs @ ys"
    and pos: "pos = \<lparr>m_node = Some (pos_after l xs)\<rparr>" by blast
  from lv obtain L where L: "objs s l = Some L" by (auto simp: live_def)
  from oracle_one[of "allocs s"] show ?thesis
  proof (elim disjE exE)
    fix a rest assume "allocs s = Some a # rest"
    from InsertAfter_models[OF m L sp this, of v] obtain s0 where s0:
      "InsertAfter l \<lparr>m_node = Some (pos_after l xs)\<rparr> v s = Done \<lparr>m_node = Some (Cell a)\<rparr> s0"
      "models s0 (\<sigma>(l := xs @ (a, v) # ys))" "\<forall>k. live s0 k = live s k" by blast
    from e s0(1) pos have s': "s' = s0" by simp
    from s0(2) show ?thesis unfolding s'
    proof (rule keepsI)
      fix k assume "live s k" "k \<notin> {l}"
      with s0(3) show "live s0 k \<and> (\<sigma>(l := xs @ (a, v) # ys)) k = \<sigma> k" by simp
    qed
  next
    assume "allocs s = []"
    then have f: "allocs s = [] \<or> (\<exists>rest. allocs s = None # rest)" by simp
    from pos_after_valid[OF m L sp] have "get_next s (pos_after l xs) \<noteq> None" .
    from InsertAfter_fail[OF this f, of l v] e pos show ?thesis by auto
  next
    fix rest assume "allocs s = None # rest"
    then have f: "allocs s = [] \<or> (\<exists>rest. allocs s = None # rest)" by simp
    from pos_after_valid[OF m L sp] have "get_next s (pos_after l xs) \<noteq> None" .
    from InsertAfter_fail[OF this f, of l v] e pos show ?thesis by auto
  qed
qed

lemma exec_EraseAfter:
  assumes m: "models s \<sigma>" and p: "valid_pos s l pos"
    and e: "exec (Op_EraseAfter l pos) s = Some (Done r s')"
  shows "keeps s \<sigma> {l} s'"
proof -
  from valid_pos_split[OF m p] obtain xs ys where lv: "live s l" and sp: "\<sigma> l = xs @ ys"
    and pos: "pos = \<lparr>m_node = Some (pos_after l xs)\<rparr>" by blast
  from lv obtain L where L: "objs s l = Some L" by (auto simp: live_def)
  show ?thesis
  proof (cases ys)
    case Nil
    with sp have "\<sigma> l = xs" by simp
    from EraseAfter_at_end[OF m L this] e pos show ?thesis by simp
  next
    case (Cons y ys')
    obtain c w where "y = (c, w)" by (cases y)
    with Cons sp have "\<sigma> l = xs @ (c, w) # ys'" by simp
    from EraseAfter_models[OF m L this] obtain s0 where s0:
      "EraseAfter l \<lparr>m_node = Some (pos_after l xs)\<rparr> s = Done \<lparr>m_node = first_of ys'\<rparr> s0"
      "models s0 (\<sigma>(l := xs @ ys'))" "\<forall>k. live s0 k = live s k" by blast
    from e s0(1) pos have s': "s' = s0" by simp
    from s0(2) show ?thesis unfolding s'
    proof (rule keepsI)
      fix k assume "live s k" "k \<notin> {l}"
      with s0(3) show "live s0 k \<and> (\<sigma>(l := xs @ ys')) k = \<sigma> k" by simp
    qed
  qed
qed

lemma exec_Clear:
  assumes m: "models s \<sigma>" and p: "live s l" and e: "exec (Op_Clear l) s = Some (Done r s')"
  shows "keeps s \<sigma> {l} s'"
proof -
  from p obtain L where L: "objs s l = Some L" by (auto simp: live_def)
  from Clear_models[OF m L] obtain s0 where s0:
    "Clear l s = Some (Done () s0)" "models s0 (\<sigma>(l := []))" "\<forall>k. live s0 k = live s k"
    by blast
  from e s0(1) have s': "s' = s0" by simp
  from s0(2) show ?thesis unfolding s'
  proof (rule keepsI)
    fix k assume "live s k" "k \<notin> {l}"
    with s0(3) show "live s0 k \<and> (\<sigma>(l := [])) k = \<sigma> k" by simp
  qed
qed

lemma exec_Swap:
  assumes m: "models s \<sigma>" and p: "live s a" "live s b"
    and e: "exec (Op_Swap a b) s = Some (Done r s')"
  shows "keeps s \<sigma> {a, b} s'"
proof -
  from p obtain LA LB where L: "objs s a = Some LA" "objs s b = Some LB"
    by (auto simp: live_def)
  from Swap_models[OF m L] obtain s0 where s0:
    "Swap a b s = Done () s0" "models s0 (\<sigma>(a := \<sigma> b, b := \<sigma> a))" "\<forall>k. live s0 k = live s k"
    by blast
  from e s0(1) have s': "s' = s0" by simp
  from s0(2) show ?thesis unfolding s'
  proof (rule keepsI)
    fix k assume "live s k" "k \<notin> {a, b}"
    with s0(3) show "live s0 k \<and> (\<sigma>(a := \<sigma> b, b := \<sigma> a)) k = \<sigma> k" by simp
  qed
qed

lemma exec_assign:
  assumes m: "models s \<sigma>" and p: "live s a" "live s b"
    and e: "exec (Op_assign a b) s = Some (Done r s')"
  shows "keeps s \<sigma> {a} s'"
proof (cases "a = b")
  case True
  with e have "s' = s" by (simp add: assign_def)
  with m show ?thesis unfolding keeps_def by blast
next
  case False
  from p obtain LA LB where L: "objs s a = Some LA" "objs s b = Some LB"
    by (auto simp: live_def)
  from e obtain u where c: "assign a b s = Some (Done u s')"
    by (cases "assign a b s") (auto elim: map_result.elims)
  show ?thesis
  proof (rule oracle_split[of "allocs s" "length (\<sigma> b)"])
    fix as rest assume "allocs s = map Some as @ rest" "length as = length (\<sigma> b)"
    from assign_models[OF m L False this] obtain s0 where s0:
      "assign a b s = Some (Done () s0)" "models s0 (\<sigma>(a := zip as (contents (\<sigma> b))))"
      "\<forall>k. live s0 k = live s k"
      by blast
    from c s0(1) have s': "s' = s0" by simp
    from s0(2) show ?thesis unfolding s'
    proof (rule keepsI)
      fix k assume "live s k" "k \<notin> {a}"
      with s0(3) show "live s0 k \<and> (\<sigma>(a := zip as (contents (\<sigma> b)))) k = \<sigma> k" by simp
    qed
  next
    fix as rest assume "allocs s = map Some as @ rest" "length as < length (\<sigma> b)"
      "rest = [] \<or> (\<exists>r. rest = None # r)"
    from assign_not_done[OF m L(2) False this] c show ?thesis by blast
  qed
qed

text \<open>A run of operations, each called as the interface asks and each returning.\<close>

inductive run :: "'a state \<Rightarrow> 'a operation list \<Rightarrow> 'a state \<Rightarrow> bool" where
  run_Nil: "run s [] s"
| run_Cons: "pre op s \<Longrightarrow> exec op s = Some (Done r s1) \<Longrightarrow> run s1 ops s' \<Longrightarrow> run s (op # ops) s'"

lemma cells_set_value:
  assumes "cells h p (xs @ (a, w) # ys)" "h a = Some n"
  shows "cells (h(a \<mapsto> n\<lparr>node_value := v\<rparr>)) p (xs @ (a, v) # ys)"
proof -
  from assms(1) have d: "distinct (map fst (xs @ (a, w) # ys))" by (rule cells_distinct)
  then have ax: "a \<notin> fst ` set xs" and ay: "a \<notin> fst ` set ys" by auto
  define h' where "h' = h(a \<mapsto> n\<lparr>node_value := v\<rparr>)"
  have ha: "h' a = Some (n\<lparr>node_value := v\<rparr>)" by (simp add: h'_def)
  have ho: "\<And>b. b \<noteq> a \<Longrightarrow> h' b = h b" by (simp add: h'_def)
  from assms(1) have "cells h (Some (Cell a)) ((a, w) # ys)" by (rule cells_drop_prefix)
  with assms(2) have ys: "cells h (next_node n) ys" by simp
  then have ys': "cells h' (next_node n) ys"
  proof (rule cells_frame)
    fix b assume "b \<in> fst ` set ys"
    with ay have "b \<noteq> a" by auto
    then show "h' b = h b" by (rule ho)
  qed
  have "\<And>p. cells h p (xs @ (a, w) # ys) \<Longrightarrow> a \<notin> fst ` set xs \<Longrightarrow>
          cells h' p (xs @ (a, v) # ys)"
  proof (induction xs)
    case Nil
    with ys' ha show ?case by simp
  next
    case (Cons x xs)
    obtain b u where x: "x = (b, u)" by (cases x)
    with Cons.prems(2) have ne: "b \<noteq> a" by auto
    from Cons.prems(1) x obtain m where m: "p = Some (Cell b)" "h b = Some m" "node_value m = u"
      "cells h (next_node m) (xs @ (a, w) # ys)" by auto
    from Cons.prems(2) have "a \<notin> fst ` set xs" by simp
    with Cons.IH[OF m(4)] have "cells h' (next_node m) (xs @ (a, v) # ys)" by simp
    with m ho[OF ne] x show ?case by simp
  qed
  with assms(1) ax show ?thesis unfolding h'_def by blast
qed

lemma it_assign_models:
  assumes m: "models s \<sigma>" and th: "objs s l = Some L" and sp: "\<sigma> l = xs @ (a, w) # ys"
  shows "\<exists>s'. it_assign \<lparr>m_node = Some (Cell a)\<rparr> v s = Done () s' \<and>
              models s' (\<sigma>(l := xs @ (a, v) # ys)) \<and> (\<forall>k. live s' k = live s k)"
proof -
  from m have sh: "shape s \<sigma>" by (rule models_shape)
  from sh have fr: "alloc_fresh s" and st: "\<And>l. next_obj s \<le> l \<Longrightarrow> objs s l = None"
    by (simp_all add: shape_def)
  from shape_node_at[OF sh th sp] obtain n where n: "heap s a = Some n" by blast
  define s' where "s' = s\<lparr>heap := (heap s)(a \<mapsto> n\<lparr>node_value := v\<rparr>)\<rparr>"
  from n have run: "it_assign \<lparr>m_node = Some (Cell a)\<rparr> v s = Done () s'"
    by (simp add: it_assign_def s'_def)
  from sh th sp have c: "cells (heap s) (head_next_node L) (xs @ (a, w) # ys)"
    using shapeD_cells by fastforce
  have "shape s' (\<sigma>(l := xs @ (a, v) # ys))"
  proof (rule shape_update[OF sh th])
    fix k L' assume "objs s' k = Some L'" "k \<noteq> l"
    then show "\<exists>L. objs s k = Some L \<and> head_next_node L' = head_next_node L"
      by (simp add: s'_def)
  next
    fix b assume "heap s' b \<noteq> heap s b"
    then have "b = a" by (auto simp: s'_def split: if_splits)
    with sp show "b \<in> fst ` set (\<sigma> l) \<or> heap s b = None" by simp
  next
    fix L' assume "objs s' l = Some L'"
    with th have "L' = L" by (simp add: s'_def)
    moreover from c n have "cells (heap s') (head_next_node L) (xs @ (a, v) # ys)"
      unfolding s'_def by (simp add: cells_set_value)
    ultimately show "cells (heap s') (head_next_node L') (xs @ (a, v) # ys)" by simp
  next
    fix b assume "b \<in> fst ` set (xs @ (a, v) # ys)"
    with sp show "b \<in> fst ` set (\<sigma> l) \<or> heap s b = None" by auto
  next
    fix k assume "next_obj s' \<le> k"
    with st[of k] show "objs s' k = None" by (simp add: s'_def)
  next
    show "alloc_fresh s'"
    proof (rule alloc_fresh_same[OF fr])
      show "allocs s' = allocs s" by (simp add: s'_def)
      fix b assume "heap s' b \<noteq> heap s b"
      then have "b = a" by (auto simp: s'_def split: if_splits)
      with n show "heap s b \<noteq> None" by simp
    qed
  qed
  then have "models s' (\<sigma>(l := xs @ (a, v) # ys))"
  proof (rule models_from_sizes)
    fix k j assume "size_of s' k = Some j"
    then have "size_of s k = Some j" by (simp add: size_of_def s'_def)
    with m have "j = length (\<sigma> k)" by (rule models_size_of)
    with sp show "j = length ((\<sigma>(l := xs @ (a, v) # ys)) k)" by simp
  qed
  moreover have "\<forall>k. live s' k = live s k" by (simp add: live_def s'_def)
  ultimately show ?thesis using run by blast
qed

lemma exec_write:
  assumes m: "models s \<sigma>" and p: "valid_pos s l pos" "m_node pos \<noteq> Some (Sentinel l)"
    and e: "exec (Op_write l pos v) s = Some (Done r s')"
  shows "keeps s \<sigma> {l} s'"
proof -
  from p(1) obtain cs where cs: "list_at s l cs"
    "m_node pos = Some (Sentinel l) \<or> (\<exists>a \<in> set (map fst cs). m_node pos = Some (Cell a))"
    by (auto simp: valid_pos_def)
  from cs(1) obtain L where L: "objs s l = Some L" "cells (heap s) (head_next_node L) cs"
    using list_atD by blast
  from m L(1) have "cells (heap s) (head_next_node L) (\<sigma> l)" by (rule modelsD_cells)
  with L(2) have "cs = \<sigma> l" by (rule cells_unique)
  with cs(2) p(2) obtain a w where a: "(a, w) \<in> set (\<sigma> l)" "m_node pos = Some (Cell a)" by auto
  then obtain xs ys where sp: "\<sigma> l = xs @ (a, w) # ys" by (meson split_list)
  from a(2) have pos: "pos = \<lparr>m_node = Some (Cell a)\<rparr>" by simp
  from it_assign_models[OF m L(1) sp, of v] obtain s0 where s0:
    "it_assign \<lparr>m_node = Some (Cell a)\<rparr> v s = Done () s0"
    "models s0 (\<sigma>(l := xs @ (a, v) # ys))" "\<forall>k. live s0 k = live s k" by blast
  from e s0(1) pos have s': "s' = s0" by simp
  from s0(2) show ?thesis unfolding s'
  proof (rule keepsI)
    fix k assume "live s k" "k \<notin> {l}"
    with s0(3) show "live s0 k \<and> (\<sigma>(l := xs @ (a, v) # ys)) k = \<sigma> k" by simp
  qed
qed

lemma exec_destroy:
  assumes m: "models s \<sigma>" and p: "live s l" and e: "exec (Op_destroy l) s = Some (Done r s')"
  shows "keeps s \<sigma> {l} s'"
proof -
  from p obtain L where L: "objs s l = Some L" by (auto simp: live_def)
  from destroy_models[OF m L] obtain s0 where s0:
    "destroy l s = Some (Done () s0)" "models s0 \<sigma>" "\<forall>k. live s0 k = (k \<noteq> l \<and> live s k)"
    by blast
  from e s0(1) have s': "s' = s0" by simp
  from s0(2) show ?thesis unfolding s'
  proof (rule keepsI)
    fix k assume "live s k" "k \<notin> {l}"
    with s0(3) show "live s0 k \<and> \<sigma> k = \<sigma> k" by simp
  qed
qed

lemma exec_keeps:
  assumes "models s \<sigma>" "pre op s" "exec op s = Some (Done r s')"
  shows "keeps s \<sigma> (targets op) s'"
proof (cases op)
  case Op_default
  with assms exec_default show ?thesis by fastforce
next
  case (Op_init vs)
  with assms exec_init show ?thesis by fastforce
next
  case (Op_copy other)
  with assms exec_copy show ?thesis by fastforce
next
  case (Op_PushFront l v)
  with assms exec_PushFront show ?thesis by fastforce
next
  case (Op_PopFront l)
  with assms exec_PopFront show ?thesis by fastforce
next
  case (Op_InsertAfter l pos v)
  with assms exec_InsertAfter show ?thesis by fastforce
next
  case (Op_EraseAfter l pos)
  with assms exec_EraseAfter show ?thesis by fastforce
next
  case (Op_Clear l)
  with assms exec_Clear show ?thesis by fastforce
next
  case (Op_Swap a b)
  with assms exec_Swap show ?thesis by fastforce
next
  case (Op_assign a b)
  with assms exec_assign show ?thesis by fastforce
next
  case (Op_write l pos v)
  with assms exec_write show ?thesis by fastforce
next
  case (Op_destroy l)
  with assms exec_destroy show ?thesis by fastforce
qed

lemma run_frame:
  assumes "run s ops s'" "models s \<sigma>" "live s A" "A \<notin> \<Union> (targets ` set ops)"
  shows "\<exists>\<sigma>'. models s' \<sigma>' \<and> live s' A \<and> \<sigma>' A = \<sigma> A"
  using assms
proof (induction arbitrary: \<sigma> rule: run.induct)
  case (run_Nil s)
  then show ?case by blast
next
  case (run_Cons op s r s1 ops s')
  from exec_keeps[OF run_Cons.prems(1) run_Cons.hyps(1) run_Cons.hyps(2)]
  obtain \<sigma>1 where s1: "models s1 \<sigma>1" "\<forall>l. live s l \<longrightarrow> l \<notin> targets op \<longrightarrow> live s1 l \<and> \<sigma>1 l = \<sigma> l"
    by (auto simp: keeps_def)
  from run_Cons.prems(3) have "A \<notin> targets op" "A \<notin> \<Union> (targets ` set ops)" by simp_all
  with s1(2) run_Cons.prems(2) have "live s1 A" "\<sigma>1 A = \<sigma> A" by simp_all
  with run_Cons.IH[OF s1(1) \<open>live s1 A\<close> \<open>A \<notin> \<Union> (targets ` set ops)\<close>] show ?case by simp
qed

lemma run_well_formed:
  assumes "run s ops s'" "well_formed s"
  shows "well_formed s'"
  using assms
proof (induction rule: run.induct)
  case (run_Nil s)
  then show ?case .
next
  case (run_Cons op s r s1 ops s')
  from run_Cons.prems obtain \<sigma> where "models s \<sigma>" by (auto simp: well_formed_def)
  from exec_keeps[OF this run_Cons.hyps(1) run_Cons.hyps(2)] have "well_formed s1"
    by (auto simp: keeps_def well_formed_def)
  then show ?case by (rule run_Cons.IH)
qed

lemma initial_well_formed:
  assumes "distinct (filter (\<lambda>x. x \<noteq> None) oracle)"
    and "\<forall>a. Some a \<in> set oracle \<longrightarrow> valid_addr a"
  shows "well_formed (initial_state oracle)"
proof -
  from assms have "models (initial_state oracle) (\<lambda>l. [])"
    by (simp add: models_def shape_def sizes_ok_def alloc_fresh_def initial_state_def)
  then show ?thesis unfolding well_formed_def by blast
qed

lemma run_single: "pre op s \<Longrightarrow> exec op s = Some (Done r s') \<Longrightarrow> run s [op] s'"
  by (rule run_Cons[OF _ _ run_Nil])

text \<open>
  Claim C5. From a well-formed state (the initial state is one), after any run of
  public operations that are called as the interface asks and return (constructions,
  \<^verbatim>\<open>PushFront\<close>, \<^verbatim>\<open>PopFront\<close>, \<^verbatim>\<open>InsertAfter\<close>, \<^verbatim>\<open>EraseAfter\<close>, \<^verbatim>\<open>Clear\<close>, \<^verbatim>\<open>Swap\<close>, assignment,
  and also a write through an iterator and the destruction of a list), the state is
  well-formed again: every list that exists has a chain of nodes from its sentinel to
  the null link, and its stored size is the number of these nodes, which is also the
  number of elements a traversal visits.
\<close>

theorem size_is_number_of_reachable_nodes:
  assumes "well_formed s" and "run s ops s'"
  shows "well_formed s' \<and>
         (\<forall>l L. objs s' l = Some L \<longrightarrow>
           (\<exists>cs. cells (heap s') (head_next_node L) cs \<and> m_size L = length cs \<and>
                 GetSize l s' = Inr (length cs) \<and> to_list l s' = Some (Inr (contents cs))))"
proof (intro conjI allI impI)
  from assms(2) assms(1) show "well_formed s'" by (rule run_well_formed)
next
  fix l L assume L: "objs s' l = Some L"
  from run_well_formed[OF assms(2) assms(1)] obtain \<sigma> where m: "models s' \<sigma>"
    by (auto simp: well_formed_def)
  from L have "live s' l" by (simp add: live_def)
  with m have la: "list_at s' l (\<sigma> l)" by (rule models_list_at)
  from m L have "cells (heap s') (head_next_node L) (\<sigma> l)" "m_size L = length (\<sigma> l)"
    by (rule modelsD_cells, rule modelsD_size)
  moreover from la have "GetSize l s' = Inr (length (\<sigma> l))" "to_list l s' = Some (Inr (contents (\<sigma> l)))"
    using GetSize_list_at to_list_list_at by (fastforce simp: contents_def)+
  ultimately show "\<exists>cs. cells (heap s') (head_next_node L) cs \<and> m_size L = length cs \<and>
                 GetSize l s' = Inr (length cs) \<and> to_list l s' = Some (Inr (contents cs))"
    by blast
qed

lemma ex_copy:
  "\<exists>s1. SingleLinkedList_copy 0 ex_state = Some (Done 2 s1) \<and>
        models s1 (ex_abs(2 := zip [30, 31, 32] (contents (ex_abs 0)))) \<and>
        (\<forall>l. live s1 l = (l = 2 \<or> live ex_state l))"
proof -
  have o: "objs ex_state 0 = Some \<lparr>head_next_node = Some (Cell 10), m_size = 3\<rparr>"
    by (simp add: ex_state_def)
  have al: "allocs ex_state = map Some [30, 31, 32] @ [None]" by (simp add: ex_state_def)
  have len: "length [30, 31, 32 :: addr] = length (ex_abs 0)" by (simp add: ex_abs_def)
  have n: "next_obj ex_state = 2" by (simp add: ex_state_def)
  from SingleLinkedList_copy_models[OF ex_models o al len] show ?thesis
    unfolding n by blast
qed

lemma ex_well_formed: "well_formed ex_state"
  using ex_models by (auto simp: well_formed_def)

theorem size_is_number_of_reachable_nodes_witness:
  "well_formed ex_state \<and>
   (\<exists>s2. run ex_state [Op_copy 0, Op_Clear 1] s2 \<and>
      (\<exists>L cs. objs s2 2 = Some L \<and> cells (heap s2) (head_next_node L) cs \<and> m_size L = length cs \<and>
              GetSize 2 s2 = Inr (length cs) \<and> to_list 2 s2 = Some (Inr (contents cs))))"
proof -
  from ex_copy obtain s1 where s1: "SingleLinkedList_copy 0 ex_state = Some (Done 2 s1)"
    "models s1 (ex_abs(2 := zip [30, 31, 32] (contents (ex_abs 0))))"
    "\<forall>l. live s1 l = (l = 2 \<or> live ex_state l)" by blast
  have l0: "live ex_state 0" "live ex_state 1" by (simp_all add: live_def ex_state_def)
  from s1(3) l0 obtain L1 where L1: "objs s1 1 = Some L1" by (auto simp: live_def)
  from Clear_models[OF s1(2) L1] obtain s2 where s2: "Clear 1 s1 = Some (Done () s2)"
    "\<forall>l. live s2 l = live s1 l" by blast
  from s1(1) have e1: "exec (Op_copy 0) ex_state = Some (Done (Object 2) s1)" by simp
  from s2(1) have e2: "exec (Op_Clear 1) s1 = Some (Done Nothing s2)" by simp
  from s1(3) l0 have p2: "pre (Op_Clear 1) s1" by simp
  from l0 have p1: "pre (Op_copy 0) ex_state" by simp
  have r: "run ex_state [Op_copy 0, Op_Clear 1] s2"
    by (rule run_Cons[OF p1 e1 run_Cons[OF p2 e2 run_Nil]])
  from s2(2) s1(3) obtain L where L: "objs s2 2 = Some L" by (auto simp: live_def)
  from size_is_number_of_reachable_nodes[OF ex_well_formed r] L
  have "\<exists>cs. cells (heap s2) (head_next_node L) cs \<and> m_size L = length cs \<and>
              GetSize 2 s2 = Inr (length cs) \<and> to_list 2 s2 = Some (Inr (contents cs))"
    by blast
  with L r ex_well_formed show ?thesis by blast
qed

subsection \<open>A copy and its source\<close>

text \<open>
  Claim C1, amended. In a well-formed state where the allocations for its elements
  succeed, copy-constructing a list \<open>B\<close> from a live list \<open>A\<close> returns a new list with the
  values of \<open>A\<close> in the same order and the same size, and the nodes of \<open>B\<close> are not nodes
  of \<open>A\<close>. \<^verbatim>\<open>B == A\<close> returns, and it is true exactly when every element of \<open>A\<close> is equal
  to itself under \<^verbatim>\<open>operator==\<close> of the element type, here \<open>eq\<close>: always when that
  operator is reflexive. After any run of operations that are called as the interface
  asks, return and are not asked to change \<open>A\<close> (pushes, pops, insertions, erasures, a
  clear, assignments to \<open>B\<close>, writes through iterators of \<open>B\<close>, swaps that do not name
  \<open>A\<close>, the destruction of \<open>B\<close>), \<open>A\<close> holds the cells it had: same nodes, same values,
  same size.
\<close>

theorem copy_is_equal_and_independent:
  assumes "models s \<sigma>" and "live s A" and "allocs s = map Some as @ rest"
    and "length as = length (\<sigma> A)"
  shows "\<exists>B s1. SingleLinkedList_copy A s = Some (Done B s1) \<and> B \<noteq> A \<and>
           models s1 (\<sigma>(B := zip as (contents (\<sigma> A)))) \<and> live s1 A \<and> live s1 B \<and>
           to_list B s1 = Some (Inr (contents (\<sigma> A))) \<and>
           to_list A s1 = Some (Inr (contents (\<sigma> A))) \<and>
           GetSize B s1 = Inr (length (\<sigma> A)) \<and> GetSize A s1 = Inr (length (\<sigma> A)) \<and>
           op_eq_by eq B A s1 = Some (Inr (list_all (\<lambda>v. eq v v) (contents (\<sigma> A)))) \<and>
           set as \<inter> set (map fst (\<sigma> A)) = {} \<and>
           (\<forall>ops s2. run s1 ops s2 \<longrightarrow> A \<notin> \<Union> (targets ` set ops) \<longrightarrow>
              list_at s2 A (\<sigma> A) \<and> to_list A s2 = Some (Inr (contents (\<sigma> A))) \<and>
              GetSize A s2 = Inr (length (\<sigma> A)))"
proof -
  let ?B = "next_obj s"
  let ?new = "zip as (contents (\<sigma> A))"
  let ?\<sigma>1 = "\<sigma>(?B := ?new)"
  from assms(2) obtain LA where LA: "objs s A = Some LA" by (auto simp: live_def)
  from SingleLinkedList_copy_models[OF assms(1) LA assms(3) assms(4)] obtain s1 where s1:
    "SingleLinkedList_copy A s = Some (Done ?B s1)" "\<not> live s ?B" "models s1 ?\<sigma>1"
    "\<forall>l. live s1 l = (l = ?B \<or> live s l)"
    by blast
  from s1(2) assms(2) have ne: "?B \<noteq> A" by auto
  from s1(4) assms(2) have lv: "live s1 A" "live s1 ?B" by simp_all
  have la: "list_at s1 A (?\<sigma>1 A)" "list_at s1 ?B (?\<sigma>1 ?B)"
    using models_list_at[OF s1(3) lv(1)] models_list_at[OF s1(3) lv(2)] by blast+
  from ne have a1: "?\<sigma>1 A = \<sigma> A" by simp
  have b1: "?\<sigma>1 ?B = ?new" by simp
  from assms(4) have cn: "contents ?new = contents (\<sigma> A)" "length ?new = length (\<sigma> A)"
    by (simp_all add: contents_def)
  from la(1) have tA: "to_list A s1 = Some (Inr (contents (\<sigma> A)))"
    "GetSize A s1 = Inr (length (\<sigma> A))"
    unfolding a1 using to_list_list_at GetSize_list_at by (fastforce simp: contents_def)+
  from la(2) have "to_list ?B s1 = Some (Inr (contents ?new))"
    "GetSize ?B s1 = Inr (length (contents ?new))"
    unfolding b1 by (rule to_list_list_at, rule GetSize_list_at)
  with cn have tB: "to_list ?B s1 = Some (Inr (contents (\<sigma> A)))"
    "GetSize ?B s1 = Inr (length (\<sigma> A))"
    by (simp_all add: contents_def)
  have "list_all2 eq (contents (\<sigma> A)) (contents (\<sigma> A)) = list_all (\<lambda>v. eq v v) (contents (\<sigma> A))"
    by (simp add: list_all2_same list_all_iff)
  with op_eq_by_cells[OF la(2) la(1), of eq]
  have eq: "op_eq_by eq ?B A s1 = Some (Inr (list_all (\<lambda>v. eq v v) (contents (\<sigma> A))))"
    unfolding a1 b1 by (simp add: cn)
  from s1(3) have "shape s1 ?\<sigma>1" by (rule models_shape)
  with lv ne have "set (map fst (?\<sigma>1 ?B)) \<inter> set (map fst (?\<sigma>1 A)) = {}"
    unfolding shape_def live_def by blast
  with assms(4) ne have dj: "set as \<inter> set (map fst (\<sigma> A)) = {}"
    by (simp add: contents_def)
  have ind: "list_at s2 A (\<sigma> A) \<and> to_list A s2 = Some (Inr (contents (\<sigma> A))) \<and>
              GetSize A s2 = Inr (length (\<sigma> A))"
    if r: "run s1 ops s2" and t: "A \<notin> \<Union> (targets ` set ops)" for ops s2
  proof -
    from run_frame[OF r s1(3) lv(1) t] obtain \<sigma>2 where
      "models s2 \<sigma>2" "live s2 A" "\<sigma>2 A = ?\<sigma>1 A" by blast
    with a1 have "list_at s2 A (\<sigma> A)" using models_list_at by fastforce
    then show ?thesis
      using to_list_list_at GetSize_list_at by (fastforce simp: contents_def)
  qed
  from s1(1,3) ne lv tA tB eq dj ind show ?thesis by blast
qed

theorem copy_is_equal_and_independent_witness:
  "models ex_state ex_abs \<and> live ex_state 0 \<and> allocs ex_state = map Some [30, 31, 32] @ [None] \<and>
   length [30, 31, 32 :: addr] = length (ex_abs 0) \<and>
   (\<exists>B s1. SingleLinkedList_copy 0 ex_state = Some (Done B s1) \<and> B \<noteq> 0 \<and>
      to_list B s1 = Some (Inr [1, 2, 3]) \<and> to_list 0 s1 = Some (Inr [1, 2, 3]) \<and>
      GetSize B s1 = Inr 3 \<and> GetSize 0 s1 = Inr 3 \<and> op_eq_by (=) B 0 s1 = Some (Inr True) \<and>
      (\<exists>s2. run s1 [Op_Clear B] s2 \<and> list_at s2 0 (ex_abs 0) \<and>
            to_list 0 s2 = Some (Inr [1, 2, 3]) \<and> GetSize 0 s2 = Inr 3))"
proof -
  have l0: "live ex_state 0" by (simp add: live_def ex_state_def)
  have al: "allocs ex_state = map Some [30, 31, 32] @ [None]" by (simp add: ex_state_def)
  have len: "length [30, 31, 32 :: addr] = length (ex_abs 0)" by (simp add: ex_abs_def)
  have c: "contents (ex_abs 0) = [1, 2, 3]" "length (ex_abs 0) = 3"
    by (simp_all add: contents_def ex_abs_def)
  from copy_is_equal_and_independent[OF ex_models l0 al len, of "(=)"] obtain B s1 where s1:
    "SingleLinkedList_copy 0 ex_state = Some (Done B s1)" "B \<noteq> 0"
    "models s1 (ex_abs(B := zip [30, 31, 32] (contents (ex_abs 0))))" "live s1 B"
    "to_list B s1 = Some (Inr (contents (ex_abs 0)))"
    "to_list 0 s1 = Some (Inr (contents (ex_abs 0)))"
    "GetSize B s1 = Inr (length (ex_abs 0))" "GetSize 0 s1 = Inr (length (ex_abs 0))"
    "op_eq_by (=) B 0 s1 = Some (Inr (list_all (\<lambda>v. v = v) (contents (ex_abs 0))))"
    "\<forall>ops s2. run s1 ops s2 \<longrightarrow> 0 \<notin> \<Union> (targets ` set ops) \<longrightarrow>
       list_at s2 0 (ex_abs 0) \<and> to_list 0 s2 = Some (Inr (contents (ex_abs 0))) \<and>
       GetSize 0 s2 = Inr (length (ex_abs 0))"
    by blast
  from s1(4) obtain LB where LB: "objs s1 B = Some LB" by (auto simp: live_def)
  from Clear_models[OF s1(3) LB] obtain s2 where "Clear B s1 = Some (Done () s2)" by blast
  then have "exec (Op_Clear B) s1 = Some (Done Nothing s2)" by simp
  moreover from s1(4) have "pre (Op_Clear B) s1" by simp
  ultimately have r: "run s1 [Op_Clear B] s2" by (rule run_single[rotated])
  from s1(2) have "0 \<notin> \<Union> (targets ` set [Op_Clear B :: int operation])" by simp
  with s1(10) r have "list_at s2 0 (ex_abs 0) \<and> to_list 0 s2 = Some (Inr (contents (ex_abs 0))) \<and>
       GetSize 0 s2 = Inr (length (ex_abs 0))" by blast
  with r have "\<exists>s2. run s1 [Op_Clear B] s2 \<and> list_at s2 0 (ex_abs 0) \<and>
            to_list 0 s2 = Some (Inr [1, 2, 3]) \<and> GetSize 0 s2 = Inr 3"
    unfolding c by blast
  moreover from s1(9) have "op_eq_by (=) B 0 s1 = Some (Inr True)" by (simp add: list_all_iff)
  ultimately have "\<exists>B s1. SingleLinkedList_copy 0 ex_state = Some (Done B s1) \<and> B \<noteq> 0 \<and>
      to_list B s1 = Some (Inr [1, 2, 3]) \<and> to_list 0 s1 = Some (Inr [1, 2, 3]) \<and>
      GetSize B s1 = Inr 3 \<and> GetSize 0 s1 = Inr 3 \<and> op_eq_by (=) B 0 s1 = Some (Inr True) \<and>
      (\<exists>s2. run s1 [Op_Clear B] s2 \<and> list_at s2 0 (ex_abs 0) \<and>
            to_list 0 s2 = Some (Inr [1, 2, 3]) \<and> GetSize 0 s2 = Inr 3)"
    using s1(1,2,5,6,7,8) unfolding c by blast
  with ex_models l0 al len show ?thesis by (intro conjI)
qed

lemma nan_models: "models nan_state nan_abs"
  by (auto simp add: models_def shape_def sizes_ok_def alloc_fresh_def valid_addr_def SIZE_MAX_def
      nan_state_def nan_abs_def)

lemma nan_copy_run: "SingleLinkedList_copy 0 nan_state = Some (Done 1 nan_copied)"
  apply (simp add: SingleLinkedList_copy_def copy_body_def new_object_def nan_state_def cbegin_def
      cbefore_begin_def cend_def)
  apply (subst copy_loop.simps)
  apply (simp add: it_neq_def it_deref_def InsertAfter_def get_next_def new_Node_def set_next_def
      incr_size_def incr_def SIZE_MAX_def it_incr_def cend_def)
  apply (subst copy_loop.simps)
  apply (simp add: it_neq_def it_deref_def InsertAfter_def get_next_def new_Node_def set_next_def
      incr_size_def incr_def SIZE_MAX_def it_incr_def cend_def)
  apply (subst copy_loop.simps)
  apply (simp add: it_neq_def cend_def GetSize_def set_size_def Swap_def destroy_def Clear_def)
  apply (subst Clear_loop.simps)
  apply (simp add: set_size_def release_object_def nan_copied_def fun_eq_iff)
  done

lemma nan_copied_lists:
  "list_at nan_copied 0 [(10, NaN), (11, Num 1)]" "list_at nan_copied 1 [(30, NaN), (31, Num 1)]"
  by (simp_all add: list_at_def nan_copied_def)

text \<open>
  Claim C1 as it is stated fails at the list \<^verbatim>\<open>{NaN, 1.0}\<close> of an element type whose
  \<^verbatim>\<open>operator==\<close> is that of \<^verbatim>\<open>double\<close>: the state is well-formed, the copy constructor
  returns the list \<open>1\<close>, which has the elements and the size of its source, and
  \<^verbatim>\<open>B == A\<close> is false.
\<close>

theorem copy_of_NaN_list_compares_unequal:
  "models nan_state nan_abs \<and>
   SingleLinkedList_copy 0 nan_state = Some (Done 1 nan_copied) \<and>
   to_list 1 nan_copied = Some (Inr [NaN, Num 1]) \<and>
   to_list 0 nan_copied = Some (Inr [NaN, Num 1]) \<and>
   GetSize 1 nan_copied = Inr 2 \<and> GetSize 0 nan_copied = Inr 2 \<and>
   op_eq_by number_eq 1 0 nan_copied = Some (Inr False)"
proof -
  have "to_list 1 nan_copied = Some (Inr [NaN, Num 1])"
    using to_list_list_at[OF nan_copied_lists(2)] by (simp add: contents_def)
  moreover have "to_list 0 nan_copied = Some (Inr [NaN, Num 1])"
    using to_list_list_at[OF nan_copied_lists(1)] by (simp add: contents_def)
  moreover have "GetSize 1 nan_copied = Inr 2" "GetSize 0 nan_copied = Inr 2"
    by (simp_all add: GetSize_def nan_copied_def)
  moreover have "op_eq_by number_eq 1 0 nan_copied = Some (Inr False)"
    using op_eq_by_cells[OF nan_copied_lists(2) nan_copied_lists(1), of number_eq]
    by (simp add: contents_def)
  ultimately show ?thesis using nan_models nan_copy_run by (intro conjI)
qed

end
